theory Spec2Isabelle
  imports Main "HOL-Library.Word"
begin

unbundle bit_operations_syntax

section \<open>Data: strings, bytes, errors\<close>

text \<open>
  A JavaScript string is a sequence of 16-bit code units; a \<^verbatim>\<open>Uint8Array\<close> is a
  sequence of bytes. String literals of the source are written \<open>js ''...''\<close>.
\<close>

type_synonym byte = "8 word"
type_synonym jschar = "16 word"
type_synonym jsstring = "jschar list"

definition js :: "string \<Rightarrow> jsstring" where
  "js s = map of_char s"

text \<open>
  The four messages of \<^verbatim>\<open>decodeAes256KeyBytes\<close>, all thrown as
  \<^verbatim>\<open>Error('Invalid KEY_ENCRYPTION_SECRET: ...')\<close>, and the exceptions of the
  platform calls the module makes.
\<close>

datatype key_problem =
    ValueEmpty
  | BadBase64Length
  | NotBase64
  | WrongByteCount nat

datatype error =
    InvalidKeyEncryptionSecret key_problem
  | DataError
  | OperationError
  | QuotaExceededError

section \<open>String operations of the language\<close>

text \<open>
  \<^verbatim>\<open>String.prototype.trim\<close> and the regular expression class \<^verbatim>\<open>\s\<close> use the same set:
  the WhiteSpace and LineTerminator code points of ECMAScript.
\<close>

definition isWhiteSpace :: "jschar \<Rightarrow> bool" where
  "isWhiteSpace c =
     (let n = unat c in
      n = 0x9 \<or> n = 0xA \<or> n = 0xB \<or> n = 0xC \<or> n = 0xD \<or> n = 0x20 \<or> n = 0xA0 \<or>
      n = 0x1680 \<or> (0x2000 \<le> n \<and> n \<le> 0x200A) \<or> n = 0x2028 \<or> n = 0x2029 \<or>
      n = 0x202F \<or> n = 0x205F \<or> n = 0x3000 \<or> n = 0xFEFF)"

definition trim :: "jsstring \<Rightarrow> jsstring" where
  "trim s = rev (dropWhile isWhiteSpace (rev (dropWhile isWhiteSpace s)))"

definition removeWhitespace :: "jsstring \<Rightarrow> jsstring" where
  "removeWhitespace s = filter (\<lambda>c. \<not> isWhiteSpace c) s"

definition startsWith :: "jsstring \<Rightarrow> jsstring \<Rightarrow> bool" where
  "startsWith s p = (take (length p) s = p)"

definition endsWith :: "jsstring \<Rightarrow> jsstring \<Rightarrow> bool" where
  "endsWith s p = (length p \<le> length s \<and> drop (length s - length p) s = p)"

text \<open>
  \<^verbatim>\<open>slice(start, end)\<close> of strings and typed arrays: a negative index counts from the
  end, and both indices are clamped to the length.
\<close>

definition jsSlice :: "'a list \<Rightarrow> int \<Rightarrow> int \<Rightarrow> 'a list" where
  "jsSlice xs start fin =
     (let n = int (length xs);
          lo = (if start < 0 then max (n + start) 0 else min start n);
          hi = (if fin < 0 then max (n + fin) 0 else min fin n)
      in take (nat (hi - lo)) (drop (nat lo) xs))"

definition sliceFrom :: "'a list \<Rightarrow> int \<Rightarrow> 'a list" where
  "sliceFrom xs start = jsSlice xs start (int (length xs))"

definition repeat :: "jsstring \<Rightarrow> nat \<Rightarrow> jsstring" where
  "repeat s n = concat (replicate n s)"

definition replaceChar :: "jschar \<Rightarrow> jschar \<Rightarrow> jsstring \<Rightarrow> jsstring" where
  "replaceChar a b s = map (\<lambda>c. if c = a then b else c) s"


section \<open>Hexadecimal digits\<close>

definition isHexDigit :: "jschar \<Rightarrow> bool" where
  "isHexDigit c =
     (let n = unat c in (48 \<le> n \<and> n \<le> 57) \<or> (97 \<le> n \<and> n \<le> 102) \<or> (65 \<le> n \<and> n \<le> 70))"

definition hexDigitValue :: "jschar \<Rightarrow> nat" where
  "hexDigitValue c =
     (let n = unat c in if n \<le> 57 then n - 48 else if 97 \<le> n then n - 87 else n - 55)"

text \<open>The regular expression \<^verbatim>\<open>/^(?:0x)?[0-9a-fA-F]{64}$/\<close>.\<close>

definition hexMatch :: "jsstring \<Rightarrow> bool" where
  "hexMatch s =
     ((length s = 64 \<and> list_all isHexDigit s) \<or>
      (startsWith s (js ''0x'') \<and> length (drop 2 s) = 64 \<and> list_all isHexDigit (drop 2 s)))"

text \<open>
  \<^verbatim>\<open>Number.parseInt(s, 16)\<close> on a string of hexadecimal digits: the value of the longest
  prefix of digits, \<open>None\<close> (NaN) when there is none. The slices it is applied to have
  passed \<open>hexMatch\<close>, so signs, prefixes and leading white space do not occur.
  Storing into a \<^verbatim>\<open>Uint8Array\<close> reduces modulo 256 and stores 0 for NaN.
\<close>

definition parseInt16 :: "jsstring \<Rightarrow> nat option" where
  "parseInt16 s =
     (let ds = takeWhile isHexDigit s
      in if ds = [] then None else Some (foldl (\<lambda>a d. 16 * a + hexDigitValue d) 0 ds))"

definition toUint8 :: "nat option \<Rightarrow> byte" where
  "toUint8 v = (case v of None \<Rightarrow> 0 | Some n \<Rightarrow> of_nat n)"

definition hexDigitChar :: "nat \<Rightarrow> jschar" where
  "hexDigitChar d = (if d < 10 then of_nat (48 + d) else of_nat (87 + d))"



section \<open>Base64: the platform's \<^verbatim>\<open>atob\<close>\<close>

text \<open>
  \<^verbatim>\<open>atob\<close> is the forgiving-base64 decode of the HTML standard: ASCII white space is
  removed; when the length is a multiple of four, one or two trailing \<^verbatim>\<open>=\<close> are
  removed; a length of 1 modulo 4 or a character outside the alphabet is a failure;
  the characters are read six bits at a time and the left-over 2 or 4 bits dropped.
\<close>

definition isAsciiWhitespace :: "jschar \<Rightarrow> bool" where
  "isAsciiWhitespace c =
     (let n = unat c in n = 0x9 \<or> n = 0xA \<or> n = 0xC \<or> n = 0xD \<or> n = 0x20)"

definition base64Value :: "jschar \<Rightarrow> nat option" where
  "base64Value c =
     (let n = unat c in
      if 65 \<le> n \<and> n \<le> 90 then Some (n - 65)
      else if 97 \<le> n \<and> n \<le> 122 then Some (n - 71)
      else if 48 \<le> n \<and> n \<le> 57 then Some (n + 4)
      else if n = 43 then Some 62
      else if n = 47 then Some 63
      else None)"

fun base64Groups :: "nat list \<Rightarrow> nat list" where
  "base64Groups (a # b # c # d # rest) =
     (let n = ((a * 64 + b) * 64 + c) * 64 + d
      in n div 65536 # n div 256 mod 256 # n mod 256 # base64Groups rest)"
| "base64Groups [a, b, c] = (let n = ((a * 64 + b) * 64 + c) div 4 in [n div 256, n mod 256])"
| "base64Groups [a, b] = [(a * 64 + b) div 16]"
| "base64Groups [a] = []"
| "base64Groups [] = []"

definition atob :: "jsstring \<Rightarrow> jsstring option" where
  "atob data =
     (let d1 = filter (\<lambda>c. \<not> isAsciiWhitespace c) data;
          d2 = (if length d1 mod 4 = 0
                then (if endsWith d1 (js ''=='') then take (length d1 - 2) d1
                      else if endsWith d1 (js ''='') then take (length d1 - 1) d1
                      else d1)
                else d1)
      in if length d2 mod 4 = 1 then None
         else if \<not> list_all (\<lambda>c. base64Value c \<noteq> None) d2 then None
         else Some (map of_nat (base64Groups (map (\<lambda>c. the (base64Value c)) d2))))"

section \<open>Key material: \<^verbatim>\<open>decodeAes256KeyBytes\<close>\<close>

definition decodeAes256KeyBytes :: "jsstring \<Rightarrow> error + byte list" where
  "decodeAes256KeyBytes keyEncoded =
     (let raw = trim keyEncoded in
      if raw = [] then Inl (InvalidKeyEncryptionSecret ValueEmpty)
      else
        let unquoted =
              (if (startsWith raw (js [CHR 0x22]) \<and> endsWith raw (js [CHR 0x22])) \<or>
                  (startsWith raw (js [CHR 0x27]) \<and> endsWith raw (js [CHR 0x27]))
               then trim (jsSlice raw 1 (- 1))
               else raw);
            normalized = removeWhitespace unquoted
        in if hexMatch normalized then
             let hex = (if startsWith normalized (js ''0x'') then sliceFrom normalized 2
                        else normalized)
             in Inr (map (\<lambda>i. toUint8 (parseInt16 (jsSlice hex (int i * 2) (int i * 2 + 2))))
                       [0..<32])
           else
             let b64 = replaceChar (of_char CHR ''_'') (of_char CHR ''/'')
                         (replaceChar (of_char CHR ''-'') (of_char CHR ''+'') normalized);
                 md = length b64 mod 4
             in if md = 1 then Inl (InvalidKeyEncryptionSecret BadBase64Length)
                else
                  let b64p = (if md \<noteq> 0 then b64 @ repeat (js ''='') (4 - md) else b64)
                  in case atob b64p of
                       None \<Rightarrow> Inl (InvalidKeyEncryptionSecret NotBase64)
                     | Some decoded \<Rightarrow>
                         let bytes = map ucast decoded :: byte list
                         in if length bytes \<noteq> 32
                            then Inl (InvalidKeyEncryptionSecret (WrongByteCount (length bytes)))
                            else Inr bytes)"

text \<open>
  The stages of \<open>decodeAes256KeyBytes\<close>, named for the proofs: the removal of quotes,
  the loop over the hexadecimal digits, and the branch for base64.
\<close>

definition unquote :: "jsstring \<Rightarrow> jsstring" where
  "unquote raw =
     (if (startsWith raw (js [CHR 0x22]) \<and> endsWith raw (js [CHR 0x22])) \<or>
         (startsWith raw (js [CHR 0x27]) \<and> endsWith raw (js [CHR 0x27]))
      then trim (jsSlice raw 1 (- 1))
      else raw)"

definition hexBytes :: "jsstring \<Rightarrow> byte list" where
  "hexBytes hex =
     map (\<lambda>i. toUint8 (parseInt16 (jsSlice hex (int i * 2) (int i * 2 + 2)))) [0..<32]"

definition base64Standard :: "jsstring \<Rightarrow> jsstring" where
  "base64Standard s =
     replaceChar (of_char CHR ''_'') (of_char CHR ''/'')
       (replaceChar (of_char CHR ''-'') (of_char CHR ''+'') s)"

definition decodeBody :: "jsstring \<Rightarrow> byte list" where
  "decodeBody body =
     map ucast
       (map of_nat (base64Groups (map (\<lambda>c. the (base64Value c)) (base64Standard body)))
          :: jsstring)"

definition decodeBase64Material :: "jsstring \<Rightarrow> error + byte list" where
  "decodeBase64Material normalized =
     (let b64 = base64Standard normalized;
          md = length b64 mod 4
      in if md = 1 then Inl (InvalidKeyEncryptionSecret BadBase64Length)
         else
           let b64p = (if md \<noteq> 0 then b64 @ repeat (js ''='') (4 - md) else b64)
           in case atob b64p of
                None \<Rightarrow> Inl (InvalidKeyEncryptionSecret NotBase64)
              | Some decoded \<Rightarrow>
                  let bytes = map ucast decoded :: byte list
                  in if length bytes \<noteq> 32
                     then Inl (InvalidKeyEncryptionSecret (WrongByteCount (length bytes)))
                     else Inr bytes)"

definition decodeNormalized :: "jsstring \<Rightarrow> error + byte list" where
  "decodeNormalized normalized =
     (if hexMatch normalized
      then Inr (hexBytes (if startsWith normalized (js ''0x'') then sliceFrom normalized 2
                          else normalized))
      else decodeBase64Material normalized)"

section \<open>The platform's AES-GCM\<close>

text \<open>
  \<^verbatim>\<open>crypto.subtle\<close> is not code of the repository. Its AES-GCM is modelled after
  FIPS 197 (the block cipher) and NIST SP 800-38D (the mode), with the defaults the
  source leaves in place: no additional data and a 128-bit tag appended to the
  ciphertext. The bound of \<open>2^39 - 256\<close> bytes on the plaintext is beyond the length of
  any string the engine can hold and is left out.
\<close>

subsection \<open>AES\<close>

definition xtime :: "byte \<Rightarrow> byte" where
  "xtime b = push_bit 1 b XOR (if bit b 7 then 0x1b else 0)"

fun gf8_mult :: "nat \<Rightarrow> byte \<Rightarrow> byte \<Rightarrow> byte" where
  "gf8_mult 0 a b = 0"
| "gf8_mult (Suc n) a b = (if bit b 0 then a else 0) XOR gf8_mult n (xtime a) (drop_bit 1 b)"

definition gmul :: "byte \<Rightarrow> byte \<Rightarrow> byte" where
  "gmul a b = gf8_mult 8 a b"

definition gf8_inverse :: "byte \<Rightarrow> byte" where
  "gf8_inverse b = foldr (\<lambda>_ acc. gmul acc b) (replicate 253 ()) b"

definition sbox :: "byte \<Rightarrow> byte" where
  "sbox b =
     (let x = gf8_inverse b
      in x XOR word_rotl 1 x XOR word_rotl 2 x XOR word_rotl 3 x XOR word_rotl 4 x XOR 0x63)"

definition xorBytes :: "byte list \<Rightarrow> byte list \<Rightarrow> byte list" where
  "xorBytes xs ys = map2 (XOR) xs ys"

text \<open>The state is the 16 bytes in input order: row \<open>r\<close> of column \<open>c\<close> at index \<open>r + 4 * c\<close>.\<close>

definition subBytes :: "byte list \<Rightarrow> byte list" where
  "subBytes s = map sbox s"

definition shiftRows :: "byte list \<Rightarrow> byte list" where
  "shiftRows s = map (\<lambda>i. s ! (i mod 4 + 4 * ((i div 4 + i mod 4) mod 4))) [0..<16]"

definition mixColumn :: "byte list \<Rightarrow> byte list" where
  "mixColumn col =
     (let s0 = col ! 0; s1 = col ! 1; s2 = col ! 2; s3 = col ! 3
      in [gmul 2 s0 XOR gmul 3 s1 XOR s2 XOR s3,
          s0 XOR gmul 2 s1 XOR gmul 3 s2 XOR s3,
          s0 XOR s1 XOR gmul 2 s2 XOR gmul 3 s3,
          gmul 3 s0 XOR s1 XOR s2 XOR gmul 2 s3])"

definition mixColumns :: "byte list \<Rightarrow> byte list" where
  "mixColumns s = concat (map (\<lambda>c. mixColumn (take 4 (drop (4 * c) s))) [0..<4])"

definition rcon :: "nat \<Rightarrow> byte list" where
  "rcon j = [(xtime ^^ (j - 1)) 1, 0, 0, 0]"

fun keyExpansionLoop :: "nat \<Rightarrow> nat \<Rightarrow> byte list list \<Rightarrow> byte list list" where
  "keyExpansionLoop Nk 0 w = w"
| "keyExpansionLoop Nk (Suc n) w =
     (let i = length w;
          temp = w ! (i - 1);
          temp' = (if i mod Nk = 0 then xorBytes (map sbox (rotate 1 temp)) (rcon (i div Nk))
                   else if Nk > 6 \<and> i mod Nk = 4 then map sbox temp
                   else temp)
      in keyExpansionLoop Nk n (w @ [xorBytes (w ! (i - Nk)) temp']))"

definition keyExpansion :: "byte list \<Rightarrow> byte list list" where
  "keyExpansion key =
     (let Nk = length key div 4; Nr = Nk + 6
      in keyExpansionLoop Nk (4 * (Nr + 1) - Nk)
           (map (\<lambda>i. take 4 (drop (4 * i) key)) [0..<Nk]))"

definition roundKey :: "byte list list \<Rightarrow> nat \<Rightarrow> byte list" where
  "roundKey w r = concat (take 4 (drop (4 * r) w))"

definition aesCipher :: "byte list \<Rightarrow> byte list \<Rightarrow> byte list" where
  "aesCipher key inp =
     (let w = keyExpansion key;
          Nr = length key div 4 + 6;
          s0 = xorBytes inp (roundKey w 0);
          s1 = fold (\<lambda>r s. xorBytes (mixColumns (shiftRows (subBytes s))) (roundKey w r))
                 [1..<Nr] s0
      in xorBytes (shiftRows (subBytes s1)) (roundKey w Nr))"

subsection \<open>Galois/Counter mode\<close>

type_synonym block = "128 word"

definition blockOfBytes :: "byte list \<Rightarrow> block" where
  "blockOfBytes bs =
     foldl (\<lambda>acc b. push_bit 8 acc OR ucast b) 0 (take 16 (bs @ replicate 16 0))"

definition bytesOfBlock :: "block \<Rightarrow> byte list" where
  "bytesOfBlock x = map (\<lambda>i. ucast (drop_bit (8 * (15 - i)) x)) [0..<16]"

definition aesBlock :: "byte list \<Rightarrow> block \<Rightarrow> block" where
  "aesBlock key x = blockOfBytes (aesCipher key (bytesOfBlock x))"

text \<open>
  Multiplication in \<open>GF(2^128)\<close>: bit 0 of the standard is the leftmost bit of the block,
  here bit 127 of the word.
\<close>

fun gf128_loop :: "nat \<Rightarrow> block \<Rightarrow> block \<Rightarrow> block \<Rightarrow> block" where
  "gf128_loop 0 X Z V = Z"
| "gf128_loop (Suc n) X Z V =
     gf128_loop n X (if bit X n then Z XOR V else Z)
       (if bit V 0 then drop_bit 1 V XOR push_bit 120 0xE1 else drop_bit 1 V)"

definition gf128_mult :: "block \<Rightarrow> block \<Rightarrow> block" where
  "gf128_mult X Y = gf128_loop 128 X 0 Y"

fun blocks16 :: "byte list \<Rightarrow> byte list list" where
  "blocks16 xs = (if xs = [] then [] else take 16 xs # blocks16 (drop 16 xs))"

declare blocks16.simps [simp del]

definition pad16 :: "byte list \<Rightarrow> byte list" where
  "pad16 xs = xs @ replicate ((16 - length xs mod 16) mod 16) 0"

definition ghash :: "block \<Rightarrow> byte list \<Rightarrow> block" where
  "ghash H xs = foldl (\<lambda>Y X. gf128_mult (Y XOR blockOfBytes X) H) 0 (blocks16 xs)"

definition len64 :: "nat \<Rightarrow> byte list" where
  "len64 n = map (\<lambda>i. ucast (drop_bit (8 * (7 - i)) (of_nat n :: 64 word))) [0..<8]"

definition inc32 :: "block \<Rightarrow> block" where
  "inc32 x = (x AND NOT 0xFFFFFFFF) OR ((x + 1) AND 0xFFFFFFFF)"

text \<open>
  GCTR XORs the input with the encryptions of successive counter blocks and truncates
  the last one to the length of the input.
\<close>

definition keystream :: "byte list \<Rightarrow> block \<Rightarrow> nat \<Rightarrow> byte list" where
  "keystream key icb n =
     concat (map (\<lambda>i. bytesOfBlock (aesBlock key ((inc32 ^^ i) icb))) [0..<(n + 15) div 16])"

definition gctr :: "byte list \<Rightarrow> block \<Rightarrow> byte list \<Rightarrow> byte list" where
  "gctr key icb xs = xorBytes xs (keystream key icb (length xs))"

definition gcmJ0 :: "block \<Rightarrow> byte list \<Rightarrow> block" where
  "gcmJ0 H iv =
     (if length iv = 12 then blockOfBytes (iv @ [0, 0, 0, 1])
      else ghash H (pad16 iv @ replicate 8 0 @ len64 (8 * length iv)))"

definition gcmTag :: "byte list \<Rightarrow> byte list \<Rightarrow> byte list \<Rightarrow> byte list" where
  "gcmTag key iv c =
     (let H = aesBlock key 0;
          S = ghash H (pad16 c @ len64 0 @ len64 (8 * length c))
      in gctr key (gcmJ0 H iv) (bytesOfBlock S))"

definition gcmEncrypt :: "byte list \<Rightarrow> byte list \<Rightarrow> byte list \<Rightarrow> byte list" where
  "gcmEncrypt key iv p =
     (let H = aesBlock key 0;
          c = gctr key (inc32 (gcmJ0 H iv)) p
      in c @ gcmTag key iv c)"

text \<open>
  Decryption fails (\<open>None\<close>, an \<^verbatim>\<open>OperationError\<close> of the platform) when the input is
  shorter than the tag and when the tag does not verify.
\<close>

definition gcmDecrypt :: "byte list \<Rightarrow> byte list \<Rightarrow> byte list \<Rightarrow> byte list option" where
  "gcmDecrypt key iv ct =
     (if length ct < 16 then None
      else
        let c = take (length ct - 16) ct;
            t = drop (length ct - 16) ct;
            H = aesBlock key 0
        in if t \<noteq> gcmTag key iv c then None
           else Some (gctr key (inc32 (gcmJ0 H iv)) c))"

section \<open>The platform's text codecs\<close>

text \<open>
  \<^verbatim>\<open>TextEncoder.encode\<close> first reads the code units as scalar values, an unpaired
  surrogate becoming U+FFFD, and writes them in UTF-8.
\<close>

definition isLeadSurrogate :: "jschar \<Rightarrow> bool" where
  "isLeadSurrogate c = (0xD800 \<le> unat c \<and> unat c \<le> 0xDBFF)"

definition isTrailSurrogate :: "jschar \<Rightarrow> bool" where
  "isTrailSurrogate c = (0xDC00 \<le> unat c \<and> unat c \<le> 0xDFFF)"

fun toScalarValues :: "jsstring \<Rightarrow> nat list" where
  "toScalarValues [] = []"
| "toScalarValues [c] = [if isLeadSurrogate c \<or> isTrailSurrogate c then 0xFFFD else unat c]"
| "toScalarValues (c # d # cs) =
     (if isLeadSurrogate c \<and> isTrailSurrogate d
      then (0x10000 + (unat c - 0xD800) * 0x400 + (unat d - 0xDC00)) # toScalarValues cs
      else (if isLeadSurrogate c \<or> isTrailSurrogate c then 0xFFFD else unat c)
             # toScalarValues (d # cs))"

definition utf8EncodeScalar :: "nat \<Rightarrow> byte list" where
  "utf8EncodeScalar cp =
     (if cp < 0x80 then [of_nat cp]
      else if cp < 0x800 then [of_nat (0xC0 + cp div 64), of_nat (0x80 + cp mod 64)]
      else if cp < 0x10000
      then [of_nat (0xE0 + cp div 4096), of_nat (0x80 + cp div 64 mod 64),
            of_nat (0x80 + cp mod 64)]
      else [of_nat (0xF0 + cp div 262144), of_nat (0x80 + cp div 4096 mod 64),
            of_nat (0x80 + cp div 64 mod 64), of_nat (0x80 + cp mod 64)])"

definition textEncode :: "jsstring \<Rightarrow> byte list" where
  "textEncode s = concat (map utf8EncodeScalar (toScalarValues s))"

text \<open>
  \<^verbatim>\<open>new TextDecoder().decode\<close>: UTF-8, not fatal, byte order mark not ignored. A leading
  EF BB BF is dropped; an ill-formed sequence gives one U+FFFD and decoding resumes at
  the byte that broke it; the code points are written back as code units.
\<close>

definition inRange :: "nat \<Rightarrow> nat \<Rightarrow> byte \<Rightarrow> bool" where
  "inRange lo hi b = (lo \<le> unat b \<and> unat b \<le> hi)"

fun utf8Decode :: "byte list \<Rightarrow> nat list" where
  "utf8Decode [] = []"
| "utf8Decode (b # bs) =
     (let x = unat b in
      if x \<le> 0x7F then x # utf8Decode bs
      else if 0xC2 \<le> x \<and> x \<le> 0xDF then
        (case bs of
           [] \<Rightarrow> [0xFFFD]
         | c # r \<Rightarrow>
             if \<not> inRange 0x80 0xBF c then 0xFFFD # utf8Decode bs
             else ((x - 0xC0) * 64 + (unat c - 0x80)) # utf8Decode r)
      else if 0xE0 \<le> x \<and> x \<le> 0xEF then
        (case bs of
           [] \<Rightarrow> [0xFFFD]
         | c # r \<Rightarrow>
             if \<not> inRange (if x = 0xE0 then 0xA0 else 0x80) (if x = 0xED then 0x9F else 0xBF) c
             then 0xFFFD # utf8Decode bs
             else
               (case r of
                  [] \<Rightarrow> [0xFFFD]
                | d # r' \<Rightarrow>
                    if \<not> inRange 0x80 0xBF d then 0xFFFD # utf8Decode r
                    else ((x - 0xE0) * 4096 + (unat c - 0x80) * 64 + (unat d - 0x80))
                           # utf8Decode r'))
      else if 0xF0 \<le> x \<and> x \<le> 0xF4 then
        (case bs of
           [] \<Rightarrow> [0xFFFD]
         | c # r \<Rightarrow>
             if \<not> inRange (if x = 0xF0 then 0x90 else 0x80) (if x = 0xF4 then 0x8F else 0xBF) c
             then 0xFFFD # utf8Decode bs
             else
               (case r of
                  [] \<Rightarrow> [0xFFFD]
                | d # r' \<Rightarrow>
                    if \<not> inRange 0x80 0xBF d then 0xFFFD # utf8Decode r
                    else
                      (case r' of
                         [] \<Rightarrow> [0xFFFD]
                       | e # r'' \<Rightarrow>
                           if \<not> inRange 0x80 0xBF e then 0xFFFD # utf8Decode r'
                           else ((x - 0xF0) * 262144 + (unat c - 0x80) * 4096 +
                                 (unat d - 0x80) * 64 + (unat e - 0x80)) # utf8Decode r'')))
      else 0xFFFD # utf8Decode bs)"

definition fromCodePoint :: "nat \<Rightarrow> jsstring" where
  "fromCodePoint cp =
     (if cp < 0x10000 then [of_nat cp]
      else [of_nat (0xD800 + (cp - 0x10000) div 0x400),
            of_nat (0xDC00 + (cp - 0x10000) mod 0x400)])"

definition textDecode :: "byte list \<Rightarrow> jsstring" where
  "textDecode bytes =
     concat (map fromCodePoint
       (utf8Decode (if take 3 bytes = [0xEF, 0xBB, 0xBF] then drop 3 bytes else bytes)))"

section \<open>The platform's random source\<close>

text \<open>
  \<^verbatim>\<open>crypto.getRandomValues\<close> fills an array from the random source, here the infinite
  sequence of the bytes still to come, passed as state; a request for more than 65536
  bytes is rejected with a \<^verbatim>\<open>QuotaExceededError\<close>.
\<close>

type_synonym random_source = "nat \<Rightarrow> byte"

definition getRandomValues ::
  "nat \<Rightarrow> random_source \<Rightarrow> error + byte list \<times> random_source" where
  "getRandomValues n rng =
     (if n > 65536 then Inl QuotaExceededError
      else Inr (map rng [0..<n], \<lambda>i. rng (n + i)))"

section \<open>The crypto module\<close>

text \<open>
  \<^verbatim>\<open>importKey('raw', ...)\<close> for AES-GCM accepts keys of 128, 192 and 256 bits and
  throws a \<^verbatim>\<open>DataError\<close> otherwise; the key object is modelled by its bytes.
\<close>

definition importKey :: "jsstring \<Rightarrow> error + byte list" where
  "importKey keyEncoded =
     (case decodeAes256KeyBytes keyEncoded of
        Inl e \<Rightarrow> Inl e
      | Inr keyBytes \<Rightarrow>
          if length keyBytes = 16 \<or> length keyBytes = 24 \<or> length keyBytes = 32
          then Inr keyBytes else Inl DataError)"

definition encrypt ::
  "random_source \<Rightarrow> jsstring \<Rightarrow> jsstring \<Rightarrow> error + byte list \<times> random_source" where
  "encrypt rng plaintext keyBase64 =
     (case importKey keyBase64 of
        Inl e \<Rightarrow> Inl e
      | Inr key \<Rightarrow>
          (case getRandomValues 12 rng of
             Inl e \<Rightarrow> Inl e
           | Inr (iv, rng') \<Rightarrow>
               let data = textEncode plaintext;
                   ciphertext = gcmEncrypt key iv data
               in Inr (iv @ ciphertext, rng')))"

definition decrypt :: "byte list \<Rightarrow> jsstring \<Rightarrow> error + jsstring" where
  "decrypt encrypted keyBase64 =
     (case importKey keyBase64 of
        Inl e \<Rightarrow> Inl e
      | Inr key \<Rightarrow>
          let iv = jsSlice encrypted 0 12;
              ciphertext = sliceFrom encrypted 12
          in (case gcmDecrypt key iv ciphertext of
                None \<Rightarrow> Inl OperationError
              | Some plaintext \<Rightarrow> Inr (textDecode plaintext)))"


definition maskApiKey :: "jsstring \<Rightarrow> jsstring" where
  "maskApiKey key =
     (if length key \<le> 12 then repeat (js ''*'') (length key)
      else jsSlice key 0 4 @ repeat (js ''*'') (length key - 8)
             @ sliceFrom key (int (length key) - 4))"

section \<open>CORS for the admin API\<close>

text \<open>
  The \<^verbatim>\<open>URL\<close> constructor of the platform is a parameter \<open>newURL\<close>: \<open>None\<close> when it
  throws, otherwise the parsed URL, of which the code reads \<^verbatim>\<open>hostname\<close> and
  \<^verbatim>\<open>origin\<close>.
\<close>

record url =
  hostname :: jsstring
  origin :: jsstring

definition originHostname :: "(jsstring \<Rightarrow> url option) \<Rightarrow> jsstring \<Rightarrow> jsstring option" where
  "originHostname newURL orig = (case newURL orig of None \<Rightarrow> None | Some u \<Rightarrow> Some (hostname u))"

definition isLocalhostOrigin :: "(jsstring \<Rightarrow> url option) \<Rightarrow> jsstring \<Rightarrow> bool" where
  "isLocalhostOrigin newURL orig =
     (let h = originHostname newURL orig
      in h = Some (js ''localhost'') \<or> h = Some (js ''127.0.0.1''))"

text \<open>\<open>ADMIN_UI_URL\<close> is \<open>None\<close> when the variable is not set; the empty string is falsy.\<close>

definition allowedOrigins :: "(jsstring \<Rightarrow> url option) \<Rightarrow> jsstring option \<Rightarrow> jsstring set" where
  "allowedOrigins newURL ADMIN_UI_URL =
     (case ADMIN_UI_URL of
        None \<Rightarrow> {}
      | Some u \<Rightarrow>
          if u = [] then {}
          else (case newURL u of None \<Rightarrow> {} | Some parsed \<Rightarrow> {origin parsed}))"

text \<open>
  The \<^verbatim>\<open>origin\<close> callback given to the CORS middleware, which calls it with the
  \<^verbatim>\<open>Origin\<close> header of the request, or the empty string when there is none.
\<close>

definition corsOrigin ::
  "(jsstring \<Rightarrow> url option) \<Rightarrow> jsstring option \<Rightarrow> jsstring \<Rightarrow> jsstring option" where
  "corsOrigin newURL ADMIN_UI_URL orig =
     (if orig = [] then Some (js ''*'')
      else if isLocalhostOrigin newURL orig then Some orig
      else if orig \<in> allowedOrigins newURL ADMIN_UI_URL then Some orig
      else None)"

definition adminApiCors ::
  "(jsstring \<Rightarrow> url option) \<Rightarrow> jsstring option \<Rightarrow> jsstring option \<Rightarrow> jsstring option" where
  "adminApiCors newURL ADMIN_UI_URL originHeader =
     corsOrigin newURL ADMIN_UI_URL (case originHeader of None \<Rightarrow> [] | Some h \<Rightarrow> h)"

section \<open>Tool scoping and the per-client rate limit\<close>

text \<open>
  Modelled from the spec: the identity record that token verification resolves
  (\<open>clientTokenId\<close>, optional \<open>allowedTools\<close>, optional \<open>rateLimit\<close>). The handler that
  builds and uses it (\<^verbatim>\<open>mcp/mcpHandler\<close>, \<^verbatim>\<open>middleware/clientAuth\<close>) is not among the
  sources; only the contract tests and the \<^verbatim>\<open>WorkerVariables\<close> type are.
\<close>

record identity =
  clientTokenId :: jsstring
  allowedTools :: "jsstring list option"
  rateLimit :: "nat option"

text \<open>
  Modelled from the spec: the payload of a scope error, \<open>{kind, message, data}\<close> with
  \<open>data = {requestedTool, allowedTools}\<close>; the sources do not declare it.
\<close>

record scope_error =
  message :: jsstring
  requestedTool :: jsstring
  allowedToolList :: "jsstring list"

text \<open>\<^verbatim>\<open>Array.prototype.join\<close> and \<^verbatim>\<open>String.prototype.includes\<close>.\<close>

fun join :: "jsstring \<Rightarrow> jsstring list \<Rightarrow> jsstring" where
  "join sep [] = []"
| "join sep [x] = x"
| "join sep (x # y # ys) = x @ sep @ join sep (y # ys)"

definition stringIncludes :: "jsstring \<Rightarrow> jsstring \<Rightarrow> bool" where
  "stringIncludes s p = list_ex (\<lambda>i. take (length p) (drop i s) = p) [0..<Suc (length s)]"

text \<open>
  Modelled from the spec: tool-scope enforcement, whose function is missing from the
  sources. Absent \<open>allowedTools\<close> allows; otherwise the name must be a member of the
  list; a rejection carries the requested name and the whole list. The message is the
  one the contract test \<^verbatim>\<open>should enforce tool scoping (Phase 3.4)\<close> writes out.
\<close>

definition authorizeTool :: "identity \<Rightarrow> jsstring \<Rightarrow> scope_error + unit" where
  "authorizeTool ident toolName =
     (case allowedTools ident of
        None \<Rightarrow> Inr ()
      | Some tools \<Rightarrow>
          if toolName \<in> set tools then Inr ()
          else Inl \<lparr>message = js ''Tool '' @ js [CHR 0x27] @ toolName @ js [CHR 0x27] @
                               js '' is not allowed for this token. Allowed tools: '' @
                               join (js '', '') tools,
                    requestedTool = toolName,
                    allowedToolList = tools\<rparr>)"

text \<open>
  Modelled from the spec: the limit of the client scope, whose function is missing from
  the sources; the contract tests compute it as \<^verbatim>\<open>tokenRateLimit ?? defaultLimit\<close>.
\<close>

definition effectiveRateLimit :: "identity \<Rightarrow> nat \<Rightarrow> nat" where
  "effectiveRateLimit ident defaultLimit =
     (case rateLimit ident of None \<Rightarrow> defaultLimit | Some tokenRateLimit \<Rightarrow> tokenRateLimit)"

section \<open>Notions of the specification\<close>

subsection \<open>The representations of a key\<close>

text \<open>
  The textual forms of a byte sequence that the specification names, after RFC 4648:
  lower-case hexadecimal, base64 and base64url with padding, and the same without.
\<close>

definition hexOfBytes :: "byte list \<Rightarrow> jsstring" where
  "hexOfBytes bs =
     concat (map (\<lambda>b. [hexDigitChar (unat b div 16), hexDigitChar (unat b mod 16)]) bs)"

fun base64Sextets :: "byte list \<Rightarrow> nat list" where
  "base64Sextets (x # y # z # rest) =
     (let n = (unat x * 256 + unat y) * 256 + unat z
      in n div 262144 # n div 4096 mod 64 # n div 64 mod 64 # n mod 64 # base64Sextets rest)"
| "base64Sextets [x, y] =
     (let n = (unat x * 256 + unat y) * 4 in [n div 4096, n div 64 mod 64, n mod 64])"
| "base64Sextets [x] = (let n = unat x * 16 in [n div 64, n mod 64])"
| "base64Sextets [] = []"

definition base64Char :: "bool \<Rightarrow> nat \<Rightarrow> jschar" where
  "base64Char urlSafe v =
     (if v < 26 then of_nat (65 + v)
      else if v < 52 then of_nat (71 + v)
      else if v < 62 then of_nat (v - 4)
      else if v = 62 then (if urlSafe then of_char CHR ''-'' else of_char CHR ''+'')
      else (if urlSafe then of_char CHR ''_'' else of_char CHR ''/''))"

definition base64Padding :: "byte list \<Rightarrow> jsstring" where
  "base64Padding bs = replicate ((3 - length bs mod 3) mod 3) (of_char CHR ''='')"

definition base64OfBytes :: "byte list \<Rightarrow> jsstring" where
  "base64OfBytes bs = map (base64Char False) (base64Sextets bs) @ base64Padding bs"

definition base64urlOfBytes :: "byte list \<Rightarrow> jsstring" where
  "base64urlOfBytes bs = map (base64Char True) (base64Sextets bs) @ base64Padding bs"

definition withoutPadding :: "jsstring \<Rightarrow> jsstring" where
  "withoutPadding s = rev (dropWhile (\<lambda>c. c = of_char CHR ''='') (rev s))"

definition keyRepresentations :: "byte list \<Rightarrow> jsstring list" where
  "keyRepresentations k =
     [hexOfBytes k, js ''0x'' @ hexOfBytes k,
      base64OfBytes k, withoutPadding (base64OfBytes k),
      base64urlOfBytes k, withoutPadding (base64urlOfBytes k)]"

text \<open>
  A text \<open>t\<close> presents the material \<open>m\<close> when it is \<open>m\<close>, or \<open>m\<close> within one pair of
  matching quotes, with white space added anywhere.
\<close>

definition presents :: "jsstring \<Rightarrow> jsstring \<Rightarrow> bool" where
  "presents t m =
     (removeWhitespace t = m \<or>
      removeWhitespace t = js [CHR 0x22] @ m @ js [CHR 0x22] \<or>
      removeWhitespace t = js [CHR 0x27] @ m @ js [CHR 0x27])"

subsection \<open>The classes of key material\<close>

definition emptyAfterTrimming :: "jsstring \<Rightarrow> bool" where
  "emptyAfterTrimming s = (trim s = [])"

definition isQuote :: "jschar \<Rightarrow> bool" where
  "isQuote c = (c = of_char (CHR 0x22) \<or> c = of_char (CHR 0x27))"

definition stripQuotes :: "jsstring \<Rightarrow> jsstring" where
  "stripQuotes s =
     (if 2 \<le> length s \<and> isQuote (hd s) \<and> last s = hd s then butlast (tl s) else s)"

definition strippedMaterial :: "jsstring \<Rightarrow> jsstring" where
  "strippedMaterial s = removeWhitespace (stripQuotes (trim s))"

definition isHexKeyText :: "jsstring \<Rightarrow> bool" where
  "isHexKeyText m =
     (let digits = (if take 2 m = js ''0x'' then drop 2 m else m)
      in length digits = 64 \<and> list_all isHexDigit digits)"

definition isBase64Symbol :: "jschar \<Rightarrow> bool" where
  "isBase64Symbol c =
     (let n = unat c in
      (65 \<le> n \<and> n \<le> 90) \<or> (97 \<le> n \<and> n \<le> 122) \<or> (48 \<le> n \<and> n \<le> 57) \<or>
      n = 43 \<or> n = 47 \<or> n = 45 \<or> n = 95)"

definition base64Body :: "jsstring \<Rightarrow> jsstring" where
  "base64Body m = takeWhile (\<lambda>c. c \<noteq> of_char CHR ''='') m"

definition base64Pad :: "jsstring \<Rightarrow> jsstring" where
  "base64Pad m = dropWhile (\<lambda>c. c \<noteq> of_char CHR ''='') m"

text \<open>
  Base64 or base64url text, with or without padding: symbols of the two alphabets in a
  number that is not 1 modulo 4, then either nothing or the one or two \<^verbatim>\<open>=\<close> that fill
  the last group of four.
\<close>

definition isBase64Text :: "jsstring \<Rightarrow> bool" where
  "isBase64Text m =
     (list_all isBase64Symbol (base64Body m) \<and> length (base64Body m) mod 4 \<noteq> 1 \<and>
      (base64Pad m = [] \<or>
       (list_all (\<lambda>c. c = of_char CHR ''='') (base64Pad m) \<and> length (base64Pad m) \<le> 2 \<and>
        length m mod 4 = 0)))"

definition base64DecodedLength :: "jsstring \<Rightarrow> nat" where
  "base64DecodedLength m = length (base64Body m) * 6 div 8"

subsection \<open>Well-formed strings and the hexadecimal alphabet\<close>

text \<open>\<^verbatim>\<open>String.prototype.isWellFormed\<close>: no surrogate without its partner.\<close>

fun isWellFormed :: "jsstring \<Rightarrow> bool" where
  "isWellFormed [] = True"
| "isWellFormed [c] = (\<not> isLeadSurrogate c \<and> \<not> isTrailSurrogate c)"
| "isWellFormed (c # d # cs) =
     (if isLeadSurrogate c then isTrailSurrogate d \<and> isWellFormed cs
      else \<not> isTrailSurrogate c \<and> isWellFormed (d # cs))"

definition isScalarValue :: "nat \<Rightarrow> bool" where
  "isScalarValue cp = (cp < 0x110000 \<and> \<not> (0xD800 \<le> cp \<and> cp \<le> 0xDFFF))"


subsection \<open>Sample inputs\<close>

definition countingSource :: random_source where
  "countingSource i = of_nat (i + 7)"

definition sampleKeyHex :: jsstring where
  "sampleKeyHex = js ''000102030405060708090a0b0c0d0e0f101112131415161718191a1b1c1d1e1f''"

definition sampleKeyBytes :: "byte list" where
  "sampleKeyBytes = [0, 1, 2, 3, 4, 5, 6, 7, 8, 9, 10, 11, 12, 13, 14, 15, 16, 17, 18, 19, 20, 21, 22, 23, 24, 25, 26, 27, 28, 29, 30, 31]"





definition sampleURL :: "jsstring \<Rightarrow> url option" where
  "sampleURL s =
     (if s = js ''http://localhost:5173''
      then Some \<lparr>hostname = js ''localhost'', origin = js ''http://localhost:5173''\<rparr>
      else if s = js ''https://admin.example.com/ui/''
      then Some \<lparr>hostname = js ''admin.example.com'', origin = js ''https://admin.example.com''\<rparr>
      else if s = js ''https://admin.example.com''
      then Some \<lparr>hostname = js ''admin.example.com'', origin = js ''https://admin.example.com''\<rparr>
      else if s = js ''https://evil.example.org''
      then Some \<lparr>hostname = js ''evil.example.org'', origin = js ''https://evil.example.org''\<rparr>
      else None)"

section \<open>Words\<close>

lemma unat_of_nat_16: "n < 65536 \<Longrightarrow> unat (of_nat n :: 16 word) = n"
  by (simp add: unat_of_nat)

lemma unat_of_nat_8: "n < 256 \<Longrightarrow> unat (of_nat n :: 8 word) = n"
  by (simp add: unat_of_nat)

lemma unat_byte_less: "unat (b :: byte) < 256"
  using unsigned_less [of b, where 'a = nat] by simp

lemma unat_jschar_less: "unat (c :: jschar) < 65536"
  using unsigned_less [of c, where 'a = nat] by simp

section \<open>Slices and repetition\<close>

lemma repeat_single: "repeat [c] n = replicate n c"
  by (induction n) (simp_all add: repeat_def)

lemma js_single: "js [c] = [of_char c]"
  by (simp add: js_def)

lemma slice_prefix: "jsSlice xs 0 (int n) = take n xs"
  by (simp add: jsSlice_def Let_def min_def)

lemma sliceFrom_nat: "sliceFrom xs (int n) = drop n xs"
  by (simp add: sliceFrom_def jsSlice_def Let_def min_def)

lemma sliceFrom_tail:
  "n \<le> length xs \<Longrightarrow> sliceFrom xs (int (length xs) - int n) = drop (length xs - n) xs"
  by (simp add: sliceFrom_def jsSlice_def Let_def min_def nat_diff_distrib)

section \<open>Masking\<close>

text \<open>
  Claim C6. \<open>maskApiKey\<close> keeps the length of its input. An input of at most 12
  characters becomes that many mask characters; a longer one keeps its first four and
  last four characters around mask characters.
\<close>

theorem maskApiKey_masks:
  "length (maskApiKey key) = length key \<and>
   (length key \<le> 12 \<longrightarrow> maskApiKey key = replicate (length key) (of_char CHR ''*'')) \<and>
   (12 < length key \<longrightarrow>
      maskApiKey key =
        take 4 key @ replicate (length key - 8) (of_char CHR ''*'') @ drop (length key - 4) key)"
proof -
  have tail: "12 < length key \<Longrightarrow> sliceFrom key (int (length key) - 4) = drop (length key - 4) key"
    using sliceFrom_tail [of 4 key] by simp
  have head: "jsSlice key 0 4 = take 4 key"
    using slice_prefix [of key 4] by simp
  show ?thesis
    by (auto simp: maskApiKey_def js_single repeat_single head tail)
qed

text \<open>The two examples of the specification: lengths 8 and 16.\<close>

theorem maskApiKey_masks_witness:
  "length (js ''abcdefgh'') \<le> 12 \<and> maskApiKey (js ''abcdefgh'') = js ''********'' \<and>
   12 < length (js ''abcdefghijklmnop'') \<and>
   maskApiKey (js ''abcdefghijklmnop'') = js ''abcd********mnop''"
  using maskApiKey_masks [of "js ''abcdefgh''"] maskApiKey_masks [of "js ''abcdefghijklmnop''"]
  by (simp add: js_def)

section \<open>Hexadecimal tokens\<close>


lemma unat_hexDigitChar: "d < 16 \<Longrightarrow> unat (hexDigitChar d) = (if d < 10 then 48 + d else 87 + d)"
  unfolding hexDigitChar_def by (simp add: unat_of_nat_16 del: of_nat_add)




lemma length_hexOfBytes: "length (hexOfBytes bs) = 2 * length bs"
  by (induction bs) (simp_all add: hexOfBytes_def)





section \<open>Rate limit and tool scope\<close>

text \<open>
  Claim C3. The limit of the client scope is the override of the identity when there
  is one, whatever the default, and the default otherwise.
\<close>

theorem effectiveRateLimit_override:
  "(rateLimit ident = None \<longrightarrow> effectiveRateLimit ident defaultLimit = defaultLimit) \<and>
   (\<forall>r. rateLimit ident = Some r \<longrightarrow> effectiveRateLimit ident defaultLimit = r)"
  by (simp add: effectiveRateLimit_def)

theorem effectiveRateLimit_override_witness:
  "effectiveRateLimit \<lparr>clientTokenId = js ''tok_123'', allowedTools = None, rateLimit = None\<rparr> 60 = 60 \<and>
   effectiveRateLimit \<lparr>clientTokenId = js ''tok_123'', allowedTools = None, rateLimit = Some 100\<rparr> 60
     = 100"
  using effectiveRateLimit_override
          [of "\<lparr>clientTokenId = js ''tok_123'', allowedTools = None, rateLimit = None\<rparr>" 60]
        effectiveRateLimit_override
          [of "\<lparr>clientTokenId = js ''tok_123'', allowedTools = None, rateLimit = Some 100\<rparr>" 60]
  by simp

lemma stringIncludes_middle: "stringIncludes (a @ p @ b) p"
proof -
  have "length a \<in> set [0..<Suc (length (a @ p @ b))]" by simp
  moreover have "take (length p) (drop (length a) (a @ p @ b)) = p" by simp
  ultimately show ?thesis
    unfolding stringIncludes_def list_ex_iff by blast
qed

lemma stringIncludes_suffix: "stringIncludes (a @ p) p"
  using stringIncludes_middle [of a p "[]"] by simp

text \<open>
  Claim C2. Without an allow-list every tool is authorised. With one, a tool is
  authorised exactly when its name is an element of the list, compared code unit by
  code unit; a rejection carries the requested name and the whole list, and its message
  contains "not allowed" and the list joined with ", ".
\<close>

theorem authorizeTool_scoping:
  "(allowedTools ident = None \<longrightarrow> authorizeTool ident toolName = Inr ()) \<and>
   (\<forall>tools. allowedTools ident = Some tools \<longrightarrow>
      (authorizeTool ident toolName = Inr () \<longleftrightarrow> toolName \<in> set tools) \<and>
      (toolName \<notin> set tools \<longrightarrow>
         (\<exists>e. authorizeTool ident toolName = Inl e \<and>
              requestedTool e = toolName \<and> allowedToolList e = tools \<and>
              stringIncludes (message e) (js ''not allowed'') \<and>
              stringIncludes (message e) (join (js '', '') tools))))"
proof -
  have split: "js '' is not allowed for this token. Allowed tools: '' =
      js '' is '' @ js ''not allowed'' @ js '' for this token. Allowed tools: ''"
    by (simp add: js_def)
  have inc1: "stringIncludes
      (js ''Tool '' @ js [CHR 0x27] @ toolName @ js [CHR 0x27] @
       js '' is not allowed for this token. Allowed tools: '' @ rest) (js ''not allowed'')" for rest
    unfolding split
    using stringIncludes_middle
      [of "js ''Tool '' @ js [CHR 0x27] @ toolName @ js [CHR 0x27] @ js '' is ''" "js ''not allowed''"
          "js '' for this token. Allowed tools: '' @ rest"]
    by simp
  have inc2: "stringIncludes
      (js ''Tool '' @ js [CHR 0x27] @ toolName @ js [CHR 0x27] @
       js '' is not allowed for this token. Allowed tools: '' @ rest) rest" for rest
    using stringIncludes_suffix
      [of "js ''Tool '' @ js [CHR 0x27] @ toolName @ js [CHR 0x27] @
           js '' is not allowed for this token. Allowed tools: ''" rest]
    by simp
  show ?thesis
    using inc1 inc2 by (auto simp: authorizeTool_def split: option.splits)
qed

text \<open>
  The example of the specification, and a name that differs from an allowed one only
  in case.
\<close>

theorem authorizeTool_scoping_witness:
  "js ''brave_web_search'' \<notin> set [js ''tavily_search''] \<and>
   (\<exists>e. authorizeTool \<lparr>clientTokenId = js ''tok_123'', allowedTools = Some [js ''tavily_search''],
                         rateLimit = None\<rparr> (js ''brave_web_search'') = Inl e \<and>
        requestedTool e = js ''brave_web_search'' \<and> allowedToolList e = [js ''tavily_search''] \<and>
        stringIncludes (message e) (js ''not allowed'') \<and>
        stringIncludes (message e) (js ''tavily_search'')) \<and>
   authorizeTool \<lparr>clientTokenId = js ''tok_123'', allowedTools = Some [js ''tavily_search''],
                  rateLimit = None\<rparr> (js ''tavily_search'') = Inr () \<and>
   authorizeTool \<lparr>clientTokenId = js ''tok_123'', allowedTools = Some [js ''tavily_search''],
                  rateLimit = None\<rparr> (js ''Tavily_Search'') \<noteq> Inr () \<and>
   authorizeTool \<lparr>clientTokenId = js ''tok_123'', allowedTools = None, rateLimit = None\<rparr>
     (js ''brave_web_search'') = Inr ()"
  using authorizeTool_scoping
          [of "\<lparr>clientTokenId = js ''tok_123'', allowedTools = Some [js ''tavily_search''],
                rateLimit = None\<rparr>" "js ''brave_web_search''"]
        authorizeTool_scoping
          [of "\<lparr>clientTokenId = js ''tok_123'', allowedTools = Some [js ''tavily_search''],
                rateLimit = None\<rparr>" "js ''tavily_search''"]
        authorizeTool_scoping
          [of "\<lparr>clientTokenId = js ''tok_123'', allowedTools = Some [js ''tavily_search''],
                rateLimit = None\<rparr>" "js ''Tavily_Search''"]
        authorizeTool_scoping
          [of "\<lparr>clientTokenId = js ''tok_123'', allowedTools = None, rateLimit = None\<rparr>"
              "js ''brave_web_search''"]
  by (simp add: js_def)

section \<open>CORS\<close>

text \<open>
  Claim C10. For a request to the admin API, whatever the URL parser of the platform:
  without an \<open>Origin\<close> header the answer is \<open>*\<close>; an origin whose host name is
  \<open>localhost\<close> or \<open>127.0.0.1\<close> is echoed, whatever \<open>ADMIN_UI_URL\<close> is; the origin of a
  parsable \<open>ADMIN_UI_URL\<close> is echoed; every other origin is refused, and so is every
  origin that is not local when \<open>ADMIN_UI_URL\<close> is unset, empty or unparsable.
\<close>

theorem adminApiCors_policy:
  "adminApiCors newURL adminUiUrl None = Some (js ''*'') \<and>
   (orig \<noteq> [] \<longrightarrow>
      (\<exists>u. newURL orig = Some u \<and> (hostname u = js ''localhost'' \<or> hostname u = js ''127.0.0.1'')) \<longrightarrow>
      adminApiCors newURL adminUiUrl (Some orig) = Some orig) \<and>
   (orig \<noteq> [] \<longrightarrow>
      (\<exists>a u. adminUiUrl = Some a \<and> a \<noteq> [] \<and> newURL a = Some u \<and> origin u = orig) \<longrightarrow>
      adminApiCors newURL adminUiUrl (Some orig) = Some orig) \<and>
   (orig \<noteq> [] \<longrightarrow>
      \<not> (\<exists>u. newURL orig = Some u \<and> (hostname u = js ''localhost'' \<or> hostname u = js ''127.0.0.1'')) \<longrightarrow>
      \<not> (\<exists>a u. adminUiUrl = Some a \<and> a \<noteq> [] \<and> newURL a = Some u \<and> origin u = orig) \<longrightarrow>
      adminApiCors newURL adminUiUrl (Some orig) = None) \<and>
   (orig \<noteq> [] \<longrightarrow>
      \<not> (\<exists>u. newURL orig = Some u \<and> (hostname u = js ''localhost'' \<or> hostname u = js ''127.0.0.1'')) \<longrightarrow>
      (adminUiUrl = None \<or> adminUiUrl = Some [] \<or> (\<exists>a. adminUiUrl = Some a \<and> newURL a = None)) \<longrightarrow>
      adminApiCors newURL adminUiUrl (Some orig) = None)"
  by (auto simp: adminApiCors_def corsOrigin_def isLocalhostOrigin_def originHostname_def
      allowedOrigins_def Let_def split: option.splits)

lemma sampleURL_localhost:
  "sampleURL (js ''http://localhost:5173'') =
     Some \<lparr>hostname = js ''localhost'', origin = js ''http://localhost:5173''\<rparr>"
  by (simp add: sampleURL_def)

lemma sampleURL_admin:
  "sampleURL (js ''https://admin.example.com/ui/'') =
     Some \<lparr>hostname = js ''admin.example.com'', origin = js ''https://admin.example.com''\<rparr>"
  by (simp add: sampleURL_def js_def)

lemma sampleURL_admin_origin:
  "sampleURL (js ''https://admin.example.com'') =
     Some \<lparr>hostname = js ''admin.example.com'', origin = js ''https://admin.example.com''\<rparr>"
  by (simp add: sampleURL_def js_def)

lemma sampleURL_evil:
  "sampleURL (js ''https://evil.example.org'') =
     Some \<lparr>hostname = js ''evil.example.org'', origin = js ''https://evil.example.org''\<rparr>"
  by (simp add: sampleURL_def js_def)

lemma sampleURL_unparsable: "sampleURL (js ''not a url'') = None"
  by (simp add: sampleURL_def js_def)

theorem adminApiCors_policy_witness:
  "adminApiCors sampleURL None (Some (js ''http://localhost:5173'')) = Some (js ''http://localhost:5173'') \<and>
   adminApiCors sampleURL (Some (js ''https://admin.example.com/ui/'')) (Some (js ''https://admin.example.com''))
     = Some (js ''https://admin.example.com'') \<and>
   adminApiCors sampleURL (Some (js ''https://admin.example.com/ui/'')) (Some (js ''https://evil.example.org''))
     = None \<and>
   adminApiCors sampleURL (Some (js ''not a url'')) (Some (js ''https://admin.example.com'')) = None \<and>
   adminApiCors sampleURL None (Some (js ''https://admin.example.com'')) = None"
proof -
  have ne: "js ''http://localhost:5173'' \<noteq> []" "js ''https://admin.example.com'' \<noteq> []"
    "js ''https://evil.example.org'' \<noteq> []" "js ''https://admin.example.com/ui/'' \<noteq> []"
    by (simp_all add: js_def)
  have neq: "js ''https://admin.example.com'' \<noteq> js ''https://evil.example.org''"
    "js ''admin.example.com'' \<noteq> js ''localhost''" "js ''admin.example.com'' \<noteq> js ''127.0.0.1''"
    "js ''evil.example.org'' \<noteq> js ''localhost''" "js ''evil.example.org'' \<noteq> js ''127.0.0.1''"
    by (simp_all add: js_def)
  show ?thesis
    using adminApiCors_policy [of sampleURL None "js ''http://localhost:5173''"]
      adminApiCors_policy [of sampleURL "Some (js ''https://admin.example.com/ui/'')"
        "js ''https://admin.example.com''"]
      adminApiCors_policy [of sampleURL "Some (js ''https://admin.example.com/ui/'')"
        "js ''https://evil.example.org''"]
      adminApiCors_policy [of sampleURL "Some (js ''not a url'')" "js ''https://admin.example.com''"]
      adminApiCors_policy [of sampleURL None "js ''https://admin.example.com''"]
    by (simp add: ne neq sampleURL_localhost sampleURL_admin sampleURL_admin_origin sampleURL_evil
        sampleURL_unparsable)
qed

section \<open>The stages of the decoder\<close>

lemma decode_staged:
  "decodeAes256KeyBytes s =
     (if trim s = [] then Inl (InvalidKeyEncryptionSecret ValueEmpty)
      else decodeNormalized (removeWhitespace (unquote (trim s))))"
  by (simp add: decodeAes256KeyBytes_def decodeNormalized_def decodeBase64Material_def unquote_def
      hexBytes_def base64Standard_def Let_def)

section \<open>Hexadecimal key material\<close>

lemma isHexDigit_hexDigitChar: "d < 16 \<Longrightarrow> isHexDigit (hexDigitChar d)"
  by (simp add: isHexDigit_def unat_hexDigitChar Let_def)

lemma hexDigitValue_hexDigitChar: "d < 16 \<Longrightarrow> hexDigitValue (hexDigitChar d) = d"
  by (simp add: hexDigitValue_def unat_hexDigitChar Let_def)

lemma parseInt16_pair:
  "a < 16 \<Longrightarrow> b < 16 \<Longrightarrow> parseInt16 [hexDigitChar a, hexDigitChar b] = Some (16 * a + b)"
  by (simp add: parseInt16_def isHexDigit_hexDigitChar hexDigitValue_hexDigitChar)

lemma toUint8_byte: "toUint8 (Some (unat b)) = (b :: byte)"
  by (simp add: toUint8_def)

lemma drop_hexOfBytes: "drop (2 * i) (hexOfBytes k) = hexOfBytes (drop i k)"
proof (induction k arbitrary: i)
  case Nil
  then show ?case by (simp add: hexOfBytes_def)
next
  case (Cons b k)
  show ?case
  proof (cases i)
    case 0
    then show ?thesis by simp
  next
    case (Suc j)
    with Cons [of j] show ?thesis by (simp add: hexOfBytes_def)
  qed
qed

lemma hexOfBytes_pair:
  assumes "i < length k"
  shows "take 2 (drop (2 * i) (hexOfBytes k)) =
           [hexDigitChar (unat (k ! i) div 16), hexDigitChar (unat (k ! i) mod 16)]"
proof -
  from assms have "drop i k = k ! i # drop (Suc i) k"
    by (simp add: Cons_nth_drop_Suc)
  then have "hexOfBytes (drop i k) =
      hexDigitChar (unat (k ! i) div 16) # hexDigitChar (unat (k ! i) mod 16)
        # hexOfBytes (drop (Suc i) k)"
    by (simp add: hexOfBytes_def)
  then show ?thesis
    by (simp add: drop_hexOfBytes)
qed

lemma jsSlice_pair:
  assumes "2 * i + 2 \<le> length xs"
  shows "jsSlice xs (int i * 2) (int i * 2 + 2) = take 2 (drop (2 * i) xs)"
proof -
  have "nat (int i * 2) = 2 * i" by simp
  moreover from assms have "int i * 2 + 2 \<le> int (length xs)" by linarith
  ultimately show ?thesis
    by (simp add: jsSlice_def Let_def min_def)
qed

lemma hexBytes_hexOfBytes:
  assumes "length k = 32"
  shows "hexBytes (hexOfBytes k) = k"
proof (rule nth_equalityI)
  show "length (hexBytes (hexOfBytes k)) = length k"
    using assms by (simp add: hexBytes_def)
next
  fix i
  assume "i < length (hexBytes (hexOfBytes k))"
  then have i: "i < 32" by (simp add: hexBytes_def)
  with assms have "2 * i + 2 \<le> length (hexOfBytes k)"
    by (simp add: length_hexOfBytes)
  then have "jsSlice (hexOfBytes k) (int i * 2) (int i * 2 + 2) =
      [hexDigitChar (unat (k ! i) div 16), hexDigitChar (unat (k ! i) mod 16)]"
    using i assms by (simp add: jsSlice_pair hexOfBytes_pair)
  moreover have "unat (k ! i) div 16 < 16"
    using unat_byte_less [of "k ! i"] by simp
  ultimately have "toUint8 (parseInt16 (jsSlice (hexOfBytes k) (int i * 2) (int i * 2 + 2))) = k ! i"
    by (simp add: parseInt16_pair toUint8_byte)
  with i show "hexBytes (hexOfBytes k) ! i = k ! i"
    by (simp add: hexBytes_def)
qed

lemma hex_hexOfBytes: "list_all isHexDigit (hexOfBytes k)"
  by (induction k) (simp_all add: hexOfBytes_def isHexDigit_hexDigitChar unat_byte_less
      less_mult_imp_div_less)

lemma isHexDigit_not_x: "isHexDigit c \<Longrightarrow> c \<noteq> 120"
  by (auto simp: isHexDigit_def)

lemma hex_not_prefixed: "list_all isHexDigit s \<Longrightarrow> \<not> startsWith s (js ''0x'')"
proof
  assume h: "list_all isHexDigit s" and "startsWith s (js ''0x'')"
  then have "take 2 s = [48, 120]" by (simp add: startsWith_def js_def numeral_2_eq_2)
  then have "s = [48, 120] @ drop 2 s"
    by (metis append_take_drop_id)
  then obtain r where "s = 48 # 120 # r" by simp
  with h have "isHexDigit 120" by simp
  then show False by (simp add: isHexDigit_def)
qed

lemma decodeNormalized_hex:
  assumes "length k = 32"
  shows "decodeNormalized (hexOfBytes k) = Inr k"
  using assms hex_hexOfBytes [of k] hex_not_prefixed [of "hexOfBytes k"]
  by (simp add: decodeNormalized_def hexMatch_def length_hexOfBytes hexBytes_hexOfBytes)

lemma decodeNormalized_0x_hex:
  assumes "length k = 32"
  shows "decodeNormalized (js ''0x'' @ hexOfBytes k) = Inr k"
proof -
  have pre: "startsWith (js ''0x'' @ hexOfBytes k) (js ''0x'')"
    by (simp add: startsWith_def js_def)
  have d2: "drop 2 (js ''0x'' @ hexOfBytes k) = hexOfBytes k"
    by (simp add: js_def)
  have "sliceFrom (js ''0x'' @ hexOfBytes k) 2 = hexOfBytes k"
    using sliceFrom_nat [of "js ''0x'' @ hexOfBytes k" 2] d2 by simp
  with pre d2 assms show ?thesis
    by (simp add: decodeNormalized_def hexMatch_def hex_hexOfBytes length_hexOfBytes
        hexBytes_hexOfBytes)
qed

section \<open>White space and quotes\<close>

lemma filter_dropWhile_not: "filter (\<lambda>c. \<not> P c) (dropWhile P xs) = filter (\<lambda>c. \<not> P c) xs"
  by (induction xs) simp_all

lemma removeWhitespace_trim: "removeWhitespace (trim s) = removeWhitespace s"
  by (simp add: removeWhitespace_def trim_def rev_filter [symmetric] filter_dropWhile_not)

lemma trim_empty_iff: "trim s = [] \<longleftrightarrow> removeWhitespace s = []"
proof
  assume "trim s = []"
  then show "removeWhitespace s = []"
    using removeWhitespace_trim [of s] by (simp add: removeWhitespace_def)
next
  assume "removeWhitespace s = []"
  then have "\<forall>c\<in>set s. isWhiteSpace c"
    by (simp add: removeWhitespace_def filter_empty_conv)
  then have "dropWhile isWhiteSpace s = []"
    by (simp add: dropWhile_eq_Nil_conv)
  then show "trim s = []"
    unfolding trim_def by (simp only: rev.simps dropWhile.simps)
qed

lemma trim_ends:
  assumes "trim s \<noteq> []"
  shows "\<not> isWhiteSpace (hd (trim s))" and "\<not> isWhiteSpace (last (trim s))"
proof -
  define ys where "ys = dropWhile isWhiteSpace s"
  define zs where "zs = dropWhile isWhiteSpace (rev ys)"
  have t: "trim s = rev zs" by (simp add: trim_def ys_def zs_def)
  with assms have zs: "zs \<noteq> []" by simp
  then have ys: "ys \<noteq> []" by (auto simp: zs_def)
  have "hd (trim s) = last zs" using zs by (simp add: t hd_rev)
  also have "\<dots> = last (rev ys)"
    using zs unfolding zs_def by (metis last_appendR takeWhile_dropWhile_id)
  also have "\<dots> = hd ys" using ys by (simp add: last_rev)
  finally show "\<not> isWhiteSpace (hd (trim s))"
    using ys hd_dropWhile [of isWhiteSpace s] by (simp add: ys_def)
  have "last (trim s) = hd zs" using zs by (simp add: t last_rev)
  then show "\<not> isWhiteSpace (last (trim s))"
    using zs hd_dropWhile [of isWhiteSpace "rev ys"] by (simp add: zs_def)
qed

lemma hd_removeWhitespace:
  "xs \<noteq> [] \<Longrightarrow> \<not> isWhiteSpace (hd xs) \<Longrightarrow> hd (removeWhitespace xs) = hd xs"
  by (cases xs) (simp_all add: removeWhitespace_def)

lemma last_removeWhitespace:
  assumes "xs \<noteq> []" "\<not> isWhiteSpace (last xs)"
  shows "last (removeWhitespace xs) = last xs"
proof -
  from assms(1) have "xs = butlast xs @ [last xs]" by simp
  then have "removeWhitespace xs = removeWhitespace (butlast xs) @ removeWhitespace [last xs]"
    unfolding removeWhitespace_def by (metis filter_append)
  with assms(2) show ?thesis by (simp add: removeWhitespace_def)
qed

lemma trim_hd_last:
  assumes "trim s \<noteq> []"
  shows "hd (trim s) = hd (removeWhitespace s)" and "last (trim s) = last (removeWhitespace s)"
  using assms trim_ends [OF assms] hd_removeWhitespace [of "trim s"]
    last_removeWhitespace [of "trim s"]
  by (simp_all add: removeWhitespace_trim)

lemma startsWith_single: "raw \<noteq> [] \<Longrightarrow> startsWith raw (js [c]) \<longleftrightarrow> hd raw = of_char c"
  by (cases raw) (simp_all add: startsWith_def js_def)

lemma endsWith_single: "raw \<noteq> [] \<Longrightarrow> endsWith raw (js [c]) \<longleftrightarrow> last raw = of_char c"
proof -
  assume ne: "raw \<noteq> []"
  then have "raw = butlast raw @ [last raw]" by simp
  then have "drop (length (butlast raw)) raw = [last raw]"
    by (metis append_eq_conv_conj)
  then have "drop (length raw - 1) raw = [last raw]"
    by simp
  with ne show ?thesis
    by (auto simp: endsWith_def js_def Suc_leI)
qed

lemma jsSlice_inner: "raw \<noteq> [] \<Longrightarrow> jsSlice raw 1 (- 1) = butlast (tl raw)"
proof -
  assume "raw \<noteq> []"
  then have "1 \<le> length raw" by (simp add: Suc_leI)
  then have "nat (int (length raw) - 1 - 1) = length (tl raw) - 1"
    by simp
  then show ?thesis
    using \<open>1 \<le> length raw\<close>
    by (simp add: jsSlice_def Let_def min_def max_def butlast_conv_take drop_Suc)
qed

lemma unquote_eq:
  assumes "raw \<noteq> []"
  shows "unquote raw =
           (if isQuote (hd raw) \<and> last raw = hd raw then trim (butlast (tl raw)) else raw)"
  using assms
  by (auto simp: unquote_def isQuote_def startsWith_single endsWith_single jsSlice_inner)

lemma quote_not_whitespace: "isQuote q \<Longrightarrow> \<not> isWhiteSpace q"
  by (auto simp: isQuote_def isWhiteSpace_def)

lemma normalized_presented:
  assumes "presents t m" "m \<noteq> []" "\<not> isQuote (hd m)"
  shows "trim t \<noteq> [] \<and> removeWhitespace (unquote (trim t)) = m"
proof -
  define raw where "raw = trim t"
  from assms(1) consider
      (plain) "removeWhitespace t = m"
    | (quoted) q where "isQuote q" "removeWhitespace t = [q] @ m @ [q]"
    by (auto simp: presents_def isQuote_def js_def)
  then show ?thesis
  proof cases
    case plain
    with assms(2) have ne: "raw \<noteq> []" by (simp add: raw_def trim_empty_iff)
    then have "hd raw = hd m" using plain by (simp add: raw_def trim_hd_last)
    with assms(3) ne have "unquote raw = raw" by (simp add: unquote_eq)
    with ne plain show ?thesis by (simp add: raw_def removeWhitespace_trim)
  next
    case quoted
    then have ne: "raw \<noteq> []" by (simp add: raw_def trim_empty_iff)
    have h: "hd raw = q" and l: "last raw = q"
      using ne quoted by (simp_all add: raw_def trim_hd_last)
    have rw: "removeWhitespace raw = q # m @ [q]"
      using quoted by (simp add: raw_def removeWhitespace_trim)
    from ne h have raw: "raw = q # tl raw" by (cases raw) simp_all
    have nq: "\<not> isWhiteSpace q" using quoted(1) by (rule quote_not_whitespace)
    from rw raw nq have tl: "removeWhitespace (tl raw) = m @ [q]"
      by (metis (no_types, lifting) filter.simps(2) list.inject removeWhitespace_def)
    then have tne: "tl raw \<noteq> []" by (auto simp: removeWhitespace_def)
    with raw l have "last (tl raw) = q" by (metis last_ConsR)
    with tne have "tl raw = butlast (tl raw) @ [q]" by (metis append_butlast_last_id)
    then have "removeWhitespace (tl raw) = removeWhitespace (butlast (tl raw)) @ [q]"
      using nq by (metis (no_types, lifting) filter.simps filter_append removeWhitespace_def)
    with tl have "removeWhitespace (butlast (tl raw)) = m" by simp
    moreover from ne h l quoted(1) have "unquote raw = trim (butlast (tl raw))"
      by (simp add: unquote_eq)
    ultimately show ?thesis
      using ne by (simp add: raw_def [symmetric] removeWhitespace_trim)
  qed
qed

section \<open>Base64 groups\<close>

lemma div_mod_base:
  fixes q r b :: nat
  assumes "r < b"
  shows "(q * b + r) div b = q" and "(q * b + r) mod b = r"
  using assms by simp_all

lemma split_three:
  fixes x y z :: nat
  assumes "y < 256" "z < 256"
  shows "((x * 256 + y) * 256 + z) div 65536 = x"
    and "((x * 256 + y) * 256 + z) div 256 mod 256 = y"
    and "((x * 256 + y) * 256 + z) mod 256 = z"
proof -
  define n where "n = (x * 256 + y) * 256 + z"
  have d: "n div 256 = x * 256 + y"
    unfolding n_def using assms(2) by (rule div_mod_base)
  have m: "n mod 256 = z"
    unfolding n_def using assms(2) by (rule div_mod_base)
  have e: "n div 65536 = n div 256 div 256"
    using div_mult2_eq [of n 256 256] by simp
  have "n div 65536 = x" "n div 256 mod 256 = y"
    unfolding e d using assms(1) by (rule div_mod_base)+
  with m show "((x * 256 + y) * 256 + z) div 65536 = x"
    and "((x * 256 + y) * 256 + z) div 256 mod 256 = y"
    and "((x * 256 + y) * 256 + z) mod 256 = z"
    unfolding n_def by blast+
qed

lemma sextets_recombine:
  fixes n :: nat
  shows "((n div 262144 * 64 + n div 4096 mod 64) * 64 + n div 64 mod 64) * 64 + n mod 64 = n"
proof -
  have a: "n div 4096 = n div 64 div 64"
    using div_mult2_eq [of n 64 64] by simp
  have b: "n div 262144 = n div 64 div 64 div 64"
    using div_mult2_eq [of n 4096 64] by (simp add: a)
  show ?thesis
    unfolding a b by (simp only: div_mult_mod_eq)
qed

lemma groups_step:
  "base64Groups (n div 262144 # n div 4096 mod 64 # n div 64 mod 64 # n mod 64 # rest) =
     n div 65536 # n div 256 mod 256 # n mod 256 # base64Groups rest"
  by (simp only: base64Groups.simps Let_def sextets_recombine)

lemma groups_two:
  fixes x y :: nat
  assumes "y < 256"
  shows "base64Groups [(x * 256 + y) * 4 div 4096, (x * 256 + y) * 4 div 64 mod 64,
                       (x * 256 + y) * 4 mod 64] = [x, y]"
proof -
  define n where "n = (x * 256 + y) * 4"
  have a: "n div 4096 = n div 64 div 64"
    using div_mult2_eq [of n 64 64] by simp
  have r: "(n div 4096 * 64 + n div 64 mod 64) * 64 + n mod 64 = n"
    unfolding a by (simp only: div_mult_mod_eq)
  have q: "n div 4 = x * 256 + y"
    unfolding n_def by simp
  have "base64Groups [n div 4096, n div 64 mod 64, n mod 64] =
      [n div 4 div 256, n div 4 mod 256]"
    by (simp only: base64Groups.simps Let_def r)
  also have "\<dots> = [x, y]"
    unfolding q using div_mod_base [OF assms, of x] by simp
  finally show ?thesis unfolding n_def .
qed

lemma groups_one:
  fixes x :: nat
  shows "base64Groups [x * 16 div 64, x * 16 mod 64] = [x]"
proof -
  define n where "n = x * 16"
  have "base64Groups [n div 64, n mod 64] = [n div 16]"
    by (simp only: base64Groups.simps div_mult_mod_eq)
  also have "n div 16 = x" unfolding n_def by simp
  finally show ?thesis unfolding n_def .
qed

lemma base64Groups_sextets: "base64Groups (base64Sextets k) = map unat k"
proof (induction k rule: base64Sextets.induct)
  case (1 x y z rest)
  show ?case
    unfolding base64Sextets.simps Let_def groups_step
      split_three [OF unat_byte_less [of y] unat_byte_less [of z]]
    using 1 by simp
next
  case (2 x y)
  show ?case
    unfolding base64Sextets.simps Let_def groups_two [OF unat_byte_less [of y]] by simp
next
  case (3 x)
  show ?case
    unfolding base64Sextets.simps Let_def groups_one by simp
next
  case 4
  then show ?case by simp
qed

lemma sextets_bounded: "list_all (\<lambda>v. v < 64) (base64Sextets k)"
proof (induction k rule: base64Sextets.induct)
  case (1 x y z rest)
  have "(unat x * 256 + unat y) * 256 + unat z < 64 * 262144"
    using unat_byte_less [of x] unat_byte_less [of y] unat_byte_less [of z] by simp
  then have "((unat x * 256 + unat y) * 256 + unat z) div 262144 < 64"
    by (simp add: less_mult_imp_div_less)
  with 1 show ?case by (simp add: Let_def)
next
  case (2 x y)
  have "(unat x * 256 + unat y) * 4 < 64 * 4096"
    using unat_byte_less [of x] unat_byte_less [of y] by simp
  then have "(unat x * 256 + unat y) * 4 div 4096 < 64"
    by (simp add: less_mult_imp_div_less)
  then show ?case by (simp add: Let_def)
next
  case (3 x)
  have "unat x * 16 < 64 * 64"
    using unat_byte_less [of x] by simp
  then have "unat x * 16 div 64 < 64"
    by (simp add: less_mult_imp_div_less)
  then show ?case by (simp add: Let_def)
next
  case 4
  then show ?case by simp
qed

lemma length_sextets: "length (base64Sextets k) = (4 * length k + 2) div 3"
  by (induction k rule: base64Sextets.induct) (simp_all add: Let_def)

lemma length_base64Groups:
  "length vs mod 4 \<noteq> 1 \<Longrightarrow> length (base64Groups vs) = length vs * 6 div 8"
proof (induction vs rule: base64Groups.induct)
  case (1 a b c d rest)
  then have "length rest mod 4 \<noteq> 1" by (simp add: mod_Suc split: if_splits)
  with 1 have "length (base64Groups rest) = length rest * 6 div 8" by simp
  then show ?case by (simp add: Let_def)
qed (simp_all add: Let_def)

section \<open>The base64 alphabets\<close>

lemma unat_base64Char:
  "v < 64 \<Longrightarrow>
   unat (base64Char urlSafe v) =
     (if v < 26 then 65 + v else if v < 52 then 71 + v else if v < 62 then v - 4
      else if v = 62 then (if urlSafe then 45 else 43) else (if urlSafe then 95 else 47))"
  unfolding base64Char_def by (simp add: unat_of_nat_16 del: of_nat_add of_nat_diff)

lemma base64Value_base64Char: "v < 64 \<Longrightarrow> base64Value (base64Char False v) = Some v"
  by (auto simp: base64Value_def unat_base64Char Let_def)

lemma isBase64Symbol_base64Char: "v < 64 \<Longrightarrow> isBase64Symbol (base64Char urlSafe v)"
  by (auto simp: isBase64Symbol_def unat_base64Char Let_def)

lemma base64Standard_Nil: "base64Standard [] = []"
  by (simp add: base64Standard_def replaceChar_def)

lemma base64Standard_Cons: "base64Standard (c # cs) = hd (base64Standard [c]) # base64Standard cs"
  by (simp add: base64Standard_def replaceChar_def)

lemma base64Standard_append: "base64Standard (xs @ ys) = base64Standard xs @ base64Standard ys"
  by (simp add: base64Standard_def replaceChar_def)

lemma length_base64Standard: "length (base64Standard s) = length s"
  by (simp add: base64Standard_def replaceChar_def)

lemma base64Standard_map: "base64Standard s = map (\<lambda>c. hd (base64Standard [c])) s"
  by (induction s) (simp_all add: base64Standard_def replaceChar_def)

lemma unat_standard:
  "unat (hd (base64Standard [c])) = (if unat c = 45 then 43 else if unat c = 95 then 47 else unat c)"
proof -
  have "c = 45 \<longleftrightarrow> unat c = 45" "c = 95 \<longleftrightarrow> unat c = 95"
    by (simp_all add: word_unat_eq_iff)
  then show ?thesis
    by (simp add: base64Standard_def replaceChar_def)
qed

lemma standard_base64Char:
  "v < 64 \<Longrightarrow> hd (base64Standard [base64Char urlSafe v]) = base64Char False v"
  by (auto simp: word_unat_eq_iff unat_standard unat_base64Char)

lemma valued_standard_iff:
  "base64Value (hd (base64Standard [c])) \<noteq> None \<longleftrightarrow> isBase64Symbol c"
  by (auto simp: base64Value_def isBase64Symbol_def unat_standard Let_def)

lemma standard_eq_iff: "hd (base64Standard [c]) = 61 \<longleftrightarrow> c = 61"
  by (simp add: word_unat_eq_iff unat_standard)

lemma symbol_facts:
  assumes "isBase64Symbol c"
  shows "c \<noteq> 61" "\<not> isWhiteSpace c" "\<not> isQuote c"
  using assms by (auto simp: isBase64Symbol_def isWhiteSpace_def isQuote_def Let_def)

lemma valued_facts:
  assumes "base64Value c \<noteq> None"
  shows "c \<noteq> 61" "\<not> isAsciiWhitespace c"
  using assms by (auto simp: base64Value_def isAsciiWhitespace_def Let_def split: if_splits)

lemma ascii_whitespace: "isAsciiWhitespace c \<Longrightarrow> isWhiteSpace c"
  by (auto simp: isAsciiWhitespace_def isWhiteSpace_def Let_def)

section \<open>Forgiving base64\<close>

lemma endsWith_iff: "endsWith x p \<longleftrightarrow> (\<exists>y. x = y @ p)"
proof
  assume e: "endsWith x p"
  then have "x = take (length x - length p) x @ p"
    by (metis append_take_drop_id endsWith_def)
  then show "\<exists>y. x = y @ p" ..
next
  assume "\<exists>y. x = y @ p"
  then show "endsWith x p" by (auto simp: endsWith_def)
qed

lemma endsWith_take: "endsWith x p \<Longrightarrow> x = take (length x - length p) x @ p"
  by (metis append_take_drop_id endsWith_def)

lemma atob_clean:
  assumes "list_all (\<lambda>c. \<not> isAsciiWhitespace c) x" "length x mod 4 = 0"
  shows "atob x =
    (let d2 = (if endsWith x [61, 61] then take (length x - 2) x
               else if endsWith x [61] then take (length x - 1) x else x)
     in if length d2 mod 4 = 1 then None
        else if \<not> list_all (\<lambda>c. base64Value c \<noteq> None) d2 then None
        else Some (map of_nat (base64Groups (map (\<lambda>c. the (base64Value c)) d2))))"
proof -
  from assms(1) have "filter (\<lambda>c. \<not> isAsciiWhitespace c) x = x"
    by (simp add: list_all_iff)
  with assms(2) show ?thesis
    by (simp add: atob_def js_def)
qed

lemma strip_padding:
  assumes "61 \<notin> set body" "k \<le> 2"
  shows "(if endsWith (body @ replicate k 61) [61, 61]
          then take (length (body @ replicate k 61) - 2) (body @ replicate k 61)
          else if endsWith (body @ replicate k 61) [61]
          then take (length (body @ replicate k 61) - 1) (body @ replicate k 61)
          else body @ replicate k 61) = (body :: jsstring)"
proof -
  from assms(2) consider "k = 0" | "k = 1" | "k = 2" by linarith
  then show ?thesis
  proof cases
    case 1
    have "\<not> endsWith body [61, 61]" "\<not> endsWith body [61]"
      using assms(1) by (auto simp: endsWith_iff)
    with 1 show ?thesis by simp
  next
    case 2
    have "\<not> endsWith (body @ [61]) [61, 61]"
    proof
      assume "endsWith (body @ [61]) [61, 61]"
      then obtain y where "body @ [61] = y @ [61, 61]" by (auto simp: endsWith_iff)
      then have "body = y @ [61]" by simp
      with assms(1) show False by simp
    qed
    moreover have "endsWith (body @ [61]) [61]" by (simp add: endsWith_iff)
    ultimately show ?thesis using 2 by simp
  next
    case 3
    have "endsWith (body @ [61, 61]) [61, 61]" by (simp add: endsWith_iff)
    with 3 show ?thesis by (simp add: numeral_2_eq_2)
  qed
qed

lemma atob_padded:
  assumes "list_all (\<lambda>c. base64Value c \<noteq> None) body" "k \<le> 2" "(length body + k) mod 4 = 0"
  shows "atob (body @ replicate k 61) =
           Some (map of_nat (base64Groups (map (\<lambda>c. the (base64Value c)) body)))"
proof -
  have noeq: "61 \<notin> set body" and nows: "list_all (\<lambda>c. \<not> isAsciiWhitespace c) body"
    using assms(1) valued_facts by (auto simp: list_all_iff)
  have "\<not> isAsciiWhitespace 61" by (simp add: isAsciiWhitespace_def)
  with nows have clean: "list_all (\<lambda>c. \<not> isAsciiWhitespace c) (body @ replicate k 61)"
    by (auto simp: list_all_iff)
  have len: "length (body @ replicate k 61) mod 4 = 0"
    using assms(3) by simp
  have m: "length body mod 4 \<noteq> 1"
    using assms(2,3) by presburger
  show ?thesis
    unfolding atob_clean [OF clean len] Let_def strip_padding [OF noeq assms(2)]
    using m assms(1) by simp
qed

lemma atob_Some:
  assumes "atob x = Some d" "list_all (\<lambda>c. \<not> isAsciiWhitespace c) x" "length x mod 4 = 0"
  shows "\<exists>body k. x = body @ replicate k 61 \<and> k \<le> 2 \<and>
           list_all (\<lambda>c. base64Value c \<noteq> None) body \<and> length body mod 4 \<noteq> 1 \<and>
           d = map of_nat (base64Groups (map (\<lambda>c. the (base64Value c)) body))"
proof -
  define d2 where "d2 = (if endsWith x [61, 61] then take (length x - 2) x
               else if endsWith x [61] then take (length x - 1) x else x)"
  have a: "atob x = (if length d2 mod 4 = 1 then None
        else if \<not> list_all (\<lambda>c. base64Value c \<noteq> None) d2 then None
        else Some (map of_nat (base64Groups (map (\<lambda>c. the (base64Value c)) d2))))"
    unfolding atob_clean [OF assms(2,3)] d2_def Let_def ..
  with assms(1) have ok: "length d2 mod 4 \<noteq> 1" "list_all (\<lambda>c. base64Value c \<noteq> None) d2"
    "d = map of_nat (base64Groups (map (\<lambda>c. the (base64Value c)) d2))"
    by (auto split: if_splits)
  have "\<exists>k\<le>2. x = d2 @ replicate k 61"
  proof (cases "endsWith x [61, 61]")
    case True
    then have "x = d2 @ replicate 2 61"
      using endsWith_take [OF True] by (simp add: d2_def numeral_2_eq_2)
    then show ?thesis by blast
  next
    case False
    show ?thesis
    proof (cases "endsWith x [61]")
      case True
      then have "x = d2 @ replicate 1 61"
        using endsWith_take [OF True] False by (simp add: d2_def)
      then show ?thesis by (metis one_le_numeral)
    next
      case n: False
      with False have "x = d2 @ replicate 0 61" by (simp add: d2_def)
      then show ?thesis by blast
    qed
  qed
  with ok show ?thesis by blast
qed

section \<open>Base64 key material\<close>

lemma body_pad_split:
  assumes "61 \<notin> set b"
  shows "base64Body (b @ replicate k 61) = b" and "base64Pad (b @ replicate k 61) = replicate k 61"
proof -
  have all: "\<forall>c\<in>set b. c \<noteq> 61" using assms by auto
  have "takeWhile (\<lambda>c. c \<noteq> 61) (b @ replicate k 61) = b"
    using all by (cases k) (simp_all add: takeWhile_tail)
  moreover have "dropWhile (\<lambda>c. c \<noteq> 61) (b @ replicate k 61) = replicate k 61"
    using all by (cases k) (simp_all add: dropWhile_append)
  ultimately show "base64Body (b @ replicate k 61) = b"
    and "base64Pad (b @ replicate k 61) = replicate k 61"
    by (simp_all add: base64Body_def base64Pad_def)
qed

lemma body_pad_id: "base64Body m @ base64Pad m = m"
  by (simp add: base64Body_def base64Pad_def)

lemma standard_padding: "base64Standard (replicate k 61) = replicate k 61"
  by (simp add: base64Standard_def replaceChar_def)

lemma valued_standard_list:
  "list_all (\<lambda>c. base64Value c \<noteq> None) (base64Standard b) \<longleftrightarrow> list_all isBase64Symbol b"
proof -
  have "list_all (\<lambda>c. base64Value c \<noteq> None) (map (\<lambda>c. hd (base64Standard [c])) b)
      \<longleftrightarrow> list_all isBase64Symbol b"
    unfolding list_all_iff using valued_standard_iff by auto
  then show ?thesis
    using base64Standard_map [of b] by simp
qed

lemma repeat_eq: "repeat (js ''='') n = replicate n 61"
  using repeat_single [of 61 n] by (simp add: js_def)

lemma decodeBase64Material_padded:
  assumes "base64Standard m @ (if length m mod 4 \<noteq> 0 then replicate (4 - length m mod 4) 61 else [])
             = sb @ replicate k 61"
    and "list_all (\<lambda>c. base64Value c \<noteq> None) sb" "k \<le> 2" "(length sb + k) mod 4 = 0"
    and "length m mod 4 \<noteq> 1"
  shows "decodeBase64Material m =
     (let bytes = map ucast (map of_nat (base64Groups (map (\<lambda>c. the (base64Value c)) sb)) :: jsstring)
                    :: byte list
      in if length bytes \<noteq> 32
         then Inl (InvalidKeyEncryptionSecret (WrongByteCount (length bytes)))
         else Inr bytes)"
proof -
  define b64p where "b64p = (if length m mod 4 \<noteq> 0
      then base64Standard m @ repeat (js ''='') (4 - length m mod 4) else base64Standard m)"
  have unfold: "decodeBase64Material m =
      (case atob b64p of
         None \<Rightarrow> Inl (InvalidKeyEncryptionSecret NotBase64)
       | Some decoded \<Rightarrow>
           let bytes = map ucast decoded :: byte list
           in if length bytes \<noteq> 32
              then Inl (InvalidKeyEncryptionSecret (WrongByteCount (length bytes)))
              else Inr bytes)"
    using assms(5) by (simp add: decodeBase64Material_def Let_def length_base64Standard b64p_def)
  have "b64p = sb @ replicate k 61"
    using assms(1) by (simp add: b64p_def repeat_eq split: if_splits)
  then have "atob b64p = Some (map of_nat (base64Groups (map (\<lambda>c. the (base64Value c)) sb)))"
    using atob_padded [OF assms(2,3,4)] by simp
  then show ?thesis
    unfolding unfold by (simp add: Let_def)
qed

lemma pad_arith:
  fixes n :: nat
  assumes "n mod 4 \<noteq> 0" "n mod 4 \<noteq> 1"
  shows "4 - n mod 4 \<le> 2 \<and> (n + (4 - n mod 4)) mod 4 = 0"
proof -
  have "n mod 4 < 4" by simp
  with assms consider "n mod 4 = 2" | "n mod 4 = 3" by linarith
  then show ?thesis
  proof cases
    case 1
    have "(n + 2) mod 4 = (n mod 4 + 2) mod 4" by (rule mod_add_left_eq [symmetric])
    with 1 show ?thesis by simp
  next
    case 2
    have "(n + 1) mod 4 = (n mod 4 + 1) mod 4" by (rule mod_add_left_eq [symmetric])
    with 2 show ?thesis by simp
  qed
qed

lemma all_padding: "list_all (\<lambda>c. c = x) xs \<Longrightarrow> xs = replicate (length xs) x"
  by (induction xs) simp_all

lemma decodeBase64Material_text:
  assumes "isBase64Text m"
  shows "decodeBase64Material m =
     (if base64DecodedLength m = 32 then Inr (decodeBody (base64Body m))
      else Inl (InvalidKeyEncryptionSecret (WrongByteCount (base64DecodedLength m))))"
proof -
  define body where "body = base64Body m"
  define pad where "pad = base64Pad m"
  define sb where "sb = base64Standard body"
  have m: "m = body @ pad" by (simp add: body_def pad_def body_pad_id)
  have sym: "list_all isBase64Symbol body" and b1: "length body mod 4 \<noteq> 1"
    and p: "pad = [] \<or> (list_all (\<lambda>c. c = 61) pad \<and> length pad \<le> 2 \<and> length m mod 4 = 0)"
    using assms by (simp_all add: isBase64Text_def body_def pad_def)
  have val: "list_all (\<lambda>c. base64Value c \<noteq> None) sb"
    using sym by (simp only: sb_def valued_standard_list)
  have lsb: "length sb = length body" by (simp add: sb_def length_base64Standard)
  let ?b64p = "base64Standard m @
      (if length m mod 4 \<noteq> 0 then replicate (4 - length m mod 4) 61 else [])"
  obtain k where k: "k \<le> 2" "?b64p = sb @ replicate k 61" "(length sb + k) mod 4 = 0"
    "length m mod 4 \<noteq> 1"
  proof (cases "pad = []")
    case True
    then have mb: "m = body" using m by simp
    then have m1: "length m mod 4 \<noteq> 1" using b1 by simp
    have lm: "length sb = length m" using lsb mb by simp
    have sm: "base64Standard m = sb" using mb by (simp add: sb_def)
    show ?thesis
    proof (cases "length m mod 4 = 0")
      case z: True
      have "?b64p = sb @ replicate 0 61" using z sm by simp
      moreover have "(length sb + 0) mod 4 = 0" using z lm by simp
      ultimately show ?thesis using m1 by (intro that [of 0]) simp_all
    next
      case nz: False
      have "?b64p = sb @ replicate (4 - length m mod 4) 61" using nz sm by simp
      moreover have "4 - length m mod 4 \<le> 2" "(length sb + (4 - length m mod 4)) mod 4 = 0"
        unfolding lm using pad_arith [OF nz m1] by simp_all
      ultimately show ?thesis using m1 by (intro that [of "4 - length m mod 4"])
    qed
  next
    case False
    with p have pp: "list_all (\<lambda>c. c = 61) pad" "length pad \<le> 2" "length m mod 4 = 0"
      by simp_all
    have "pad = replicate (length pad) 61"
      using pp(1) by (rule all_padding)
    then have "base64Standard pad = replicate (length pad) 61"
      using standard_padding [of "length pad"] by simp
    then have "base64Standard m = sb @ replicate (length pad) 61"
      unfolding m base64Standard_append sb_def by simp
    with pp(3) have "?b64p = sb @ replicate (length pad) 61" by simp
    moreover have "(length sb + length pad) mod 4 = 0"
      using pp(3) m lsb by simp
    moreover have "length m mod 4 \<noteq> 1" using pp(3) by simp
    ultimately show ?thesis using pp(2) by (intro that [of "length pad"])
  qed
  have len: "length (base64Groups (map (\<lambda>c. the (base64Value c)) sb)) = base64DecodedLength m"
    using b1 lsb by (simp add: length_base64Groups base64DecodedLength_def body_def)
  show ?thesis
    unfolding decodeBase64Material_padded [OF k(2) val k(1) k(3) k(4)] Let_def
    using len by (simp add: decodeBody_def sb_def body_def)
qed

lemma length_43:
  fixes n :: nat
  assumes "n * 6 div 8 = 32"
  shows "n = 43"
proof -
  have "8 * (n * 6 div 8) \<le> n * 6" "n * 6 < 8 * (n * 6 div 8) + 8"
    using div_mult_mod_eq [of "n * 6" 8] mod_less_divisor [of 8 "n * 6"] by linarith+
  with assms show ?thesis by linarith
qed

lemma standard_clean:
  assumes "list_all (\<lambda>c. \<not> isWhiteSpace c) m"
  shows "list_all (\<lambda>c. \<not> isAsciiWhitespace c) (base64Standard m)"
proof -
  have "\<not> isAsciiWhitespace (hd (base64Standard [c]))" if "\<not> isWhiteSpace c" for c
    using that by (auto simp: isAsciiWhitespace_def isWhiteSpace_def unat_standard Let_def)
  with assms have "list_all (\<lambda>c. \<not> isAsciiWhitespace c) (map (\<lambda>c. hd (base64Standard [c])) m)"
    by (simp add: list_all_iff)
  then show ?thesis
    using base64Standard_map [of m] by simp
qed

lemma base64Value_eq: "base64Value 61 = None"
  by (simp add: base64Value_def)

lemma symbols_no_eq: "list_all isBase64Symbol b \<Longrightarrow> 61 \<notin> set b"
  using symbol_facts(1) by (auto simp: list_all_iff)

lemma isBase64Text_plain:
  assumes "list_all isBase64Symbol m" "length m mod 4 \<noteq> 1"
  shows "isBase64Text m"
proof -
  have "base64Body (m @ replicate 0 61) = m" "base64Pad (m @ replicate 0 61) = replicate 0 61"
    using body_pad_split [OF symbols_no_eq [OF assms(1)], of 0] by blast+
  then show ?thesis
    using assms by (simp add: isBase64Text_def)
qed

lemma isBase64Text_padded:
  assumes "list_all isBase64Symbol b" "length b mod 4 \<noteq> 1" "1 \<le> k" "k \<le> 2"
    "(length b + k) mod 4 = 0"
  shows "isBase64Text (b @ replicate k 61)"
  using assms body_pad_split [OF symbols_no_eq [OF assms(1)], of k]
  by (simp add: isBase64Text_def list_all_iff)

lemma decodeBase64Material_Inr:
  assumes "list_all (\<lambda>c. \<not> isWhiteSpace c) m" "decodeBase64Material m = Inr key"
  shows "isBase64Text m"
proof -
  define j where "j = (if length m mod 4 \<noteq> 0 then 4 - length m mod 4 else 0)"
  define b64p where "b64p = base64Standard m @ replicate j 61"
  have b64p: "(if length (base64Standard m) mod 4 \<noteq> 0
      then base64Standard m @ repeat (js ''='') (4 - length (base64Standard m) mod 4)
      else base64Standard m) = b64p"
    by (simp add: b64p_def j_def repeat_eq length_base64Standard)
  have md: "length m mod 4 \<noteq> 1"
    using assms(2) by (auto simp: decodeBase64Material_def Let_def length_base64Standard)
  from assms(2) obtain decoded where dec: "atob b64p = Some decoded" "length decoded = 32"
    unfolding decodeBase64Material_def Let_def b64p
    by (auto split: if_splits option.splits)
  have j: "(length m mod 4 = 0 \<and> j = 0) \<or> (length m mod 4 = 2 \<and> j = 2) \<or> (length m mod 4 = 3 \<and> j = 1)"
    using md unfolding j_def by presburger
  have "(length m + j) mod 4 = 0"
  proof (cases "length m mod 4 = 0")
    case True
    then show ?thesis by (simp add: j_def)
  next
    case False
    then show ?thesis using pad_arith [OF False md] by (simp add: j_def)
  qed
  then have len: "length b64p mod 4 = 0"
    by (simp add: b64p_def length_base64Standard)
  have "\<not> isAsciiWhitespace 61" by (simp add: isAsciiWhitespace_def)
  then have clean: "list_all (\<lambda>c. \<not> isAsciiWhitespace c) b64p"
    using standard_clean [OF assms(1)] by (auto simp: b64p_def list_all_iff)
  from atob_Some [OF dec(1) clean len] obtain body k where
    bk: "b64p = body @ replicate k 61" "k \<le> 2" "list_all (\<lambda>c. base64Value c \<noteq> None) body"
      "length body mod 4 \<noteq> 1"
      "decoded = map of_nat (base64Groups (map (\<lambda>c. the (base64Value c)) body))"
    by blast
  have "length body * 6 div 8 = 32"
    using dec(2) bk(4,5) by (simp add: length_base64Groups)
  then have lb: "length body = 43" by (rule length_43)
  have "(43 + k) mod 4 = 0" using len bk(1) lb by simp
  with bk(2) have k: "k = 1" by presburger
  have eq: "base64Standard m @ replicate j 61 = body @ [61]"
    using bk(1) k by (simp add: b64p_def)
  from j show ?thesis
  proof (elim disjE conjE)
    assume "length m mod 4 = 0" "j = 0"
    with eq have sm: "base64Standard m = body @ [61]" by simp
    then have lm: "length m = 44" using lb length_base64Standard [of m] by simp
    then have mne: "m \<noteq> []" by auto
    define m0 where "m0 = butlast m"
    define c where "c = last m"
    have m: "m = m0 @ [c]" using mne by (simp add: m0_def c_def)
    have "base64Standard m0 @ base64Standard [c] = body @ [61]"
      using sm unfolding m base64Standard_append .
    moreover have "length (base64Standard m0) = length body"
      using lm lb by (simp add: length_base64Standard m0_def)
    ultimately have s0: "base64Standard m0 = body" and sc: "base64Standard [c] = [61]"
      by simp_all
    from sc have "hd (base64Standard [c]) = 61" by simp
    then have c: "c = 61" by (simp only: standard_eq_iff)
    have sym: "list_all isBase64Symbol m0"
      using bk(3) unfolding s0 [symmetric] by (simp only: valued_standard_list)
    have "length m0 = 43" using lm by (simp add: m0_def)
    then have "isBase64Text (m0 @ replicate 1 61)"
      using sym by (intro isBase64Text_padded) simp_all
    then show ?thesis using m c by simp
  next
    assume "length m mod 4 = 3" "j = 1"
    with eq have sm: "base64Standard m = body" by simp
    have "list_all isBase64Symbol m"
      using bk(3) unfolding sm [symmetric] by (simp only: valued_standard_list)
    then show ?thesis using md by (rule isBase64Text_plain)
  next
    assume "length m mod 4 = 2" "j = 2"
    with eq have "body = base64Standard m @ [61]" by (simp add: numeral_2_eq_2)
    with bk(3) show ?thesis by (simp add: base64Value_eq)
  qed
qed

section \<open>Representations of a key\<close>

lemma ucast_of_nat_unat: "ucast (of_nat (unat (b :: byte)) :: jschar) = b"
proof -
  have "ucast (ucast b :: jschar) = b"
    by (rule ucast_up_ucast_id) (simp add: is_up)
  then show ?thesis by simp
qed

lemma standard_chars:
  assumes "list_all (\<lambda>v. v < 64) sx"
  shows "base64Standard (map (base64Char urlSafe) sx) = map (base64Char False) sx"
  using assms unfolding base64Standard_map [of "map (base64Char urlSafe) sx"]
  by (simp add: list_all_iff standard_base64Char)

lemma values_chars:
  assumes "list_all (\<lambda>v. v < 64) sx"
  shows "map (\<lambda>c. the (base64Value c)) (map (base64Char False) sx) = sx"
  using assms by (induction sx) (simp_all add: base64Value_base64Char)

lemma decodeBody_key: "decodeBody (map (base64Char urlSafe) (base64Sextets k)) = k"
proof -
  have "decodeBody (map (base64Char urlSafe) (base64Sextets k)) =
      map ucast (map of_nat (map unat k) :: jsstring)"
    unfolding decodeBody_def standard_chars [OF sextets_bounded] values_chars [OF sextets_bounded]
      base64Groups_sextets ..
  also have "\<dots> = k"
    using ucast_of_nat_unat by (induction k) simp_all
  finally show ?thesis .
qed

lemma symbols_chars:
  assumes "list_all (\<lambda>v. v < 64) sx"
  shows "list_all isBase64Symbol (map (base64Char urlSafe) sx)"
  using assms by (simp add: list_all_iff isBase64Symbol_base64Char)

lemma withoutPadding_padded:
  assumes "61 \<notin> set b"
  shows "withoutPadding (b @ replicate k 61) = b"
proof -
  have "dropWhile (\<lambda>c. c = 61) (rev b) = rev b"
  proof (cases "rev b")
    case Nil
    then show ?thesis by simp
  next
    case (Cons c cs)
    then have "c \<in> set b" by (metis list.set_intros(1) set_rev)
    with assms have "c \<noteq> 61" by auto
    with Cons show ?thesis by simp
  qed
  then have "dropWhile (\<lambda>c. c = 61) (replicate k 61 @ rev b) = rev b"
    by (simp add: dropWhile_append)
  then show ?thesis
    by (simp add: withoutPadding_def)
qed

lemma base64_forms:
  assumes "length k = 32"
  shows "base64OfBytes k = map (base64Char False) (base64Sextets k) @ replicate 1 61"
    and "base64urlOfBytes k = map (base64Char True) (base64Sextets k) @ replicate 1 61"
    and "withoutPadding (base64OfBytes k) = map (base64Char False) (base64Sextets k) @ replicate 0 61"
    and "withoutPadding (base64urlOfBytes k) = map (base64Char True) (base64Sextets k) @ replicate 0 61"
proof -
  have pad: "base64Padding k = replicate 1 61"
    using assms(1) by (simp add: base64Padding_def)
  show a: "base64OfBytes k = map (base64Char False) (base64Sextets k) @ replicate 1 61"
    and b: "base64urlOfBytes k = map (base64Char True) (base64Sextets k) @ replicate 1 61"
    by (simp_all add: base64OfBytes_def base64urlOfBytes_def pad)
  show "withoutPadding (base64OfBytes k) = map (base64Char False) (base64Sextets k) @ replicate 0 61"
    unfolding a
    using withoutPadding_padded [OF symbols_no_eq [OF symbols_chars [OF sextets_bounded]], of False k 1]
    by simp
  show "withoutPadding (base64urlOfBytes k) = map (base64Char True) (base64Sextets k) @ replicate 0 61"
    unfolding b
    using withoutPadding_padded [OF symbols_no_eq [OF symbols_chars [OF sextets_bounded]], of True k 1]
    by simp
qed

lemma length_chars: "length k = 32 \<Longrightarrow> length (map (base64Char u) (base64Sextets k)) = 43"
  by (simp add: length_sextets)

lemma decodeNormalized_base64:
  assumes "length b = 43" "list_all isBase64Symbol b" "k \<le> 1"
  shows "decodeNormalized (b @ replicate k 61) = Inr (decodeBody b)"
proof -
  let ?m = "b @ replicate k 61"
  have noeq: "61 \<notin> set b" using assms(2) by (rule symbols_no_eq)
  have valid: "isBase64Text ?m"
  proof (cases "k = 0")
    case True
    then show ?thesis using isBase64Text_plain [OF assms(2)] assms(1) by simp
  next
    case False
    with assms(3) have "k = 1" by simp
    then show ?thesis using isBase64Text_padded [OF assms(2), of k] assms(1) by simp
  qed
  have len: "base64DecodedLength ?m = 32"
    using assms(1) body_pad_split(1) [OF noeq, of k] by (simp add: base64DecodedLength_def)
  have "length ?m \<noteq> 64" "length (drop 2 ?m) \<noteq> 64"
    using assms(1,3) by simp_all
  then have "\<not> hexMatch ?m" by (simp add: hexMatch_def)
  then show ?thesis
    using decodeBase64Material_text [OF valid] len body_pad_split(1) [OF noeq, of k]
    by (simp add: decodeNormalized_def)
qed

lemma base64_form_decodes:
  assumes "length k = 32" "j \<le> 1"
  shows "decodeNormalized (map (base64Char u) (base64Sextets k) @ replicate j 61) = Inr k"
    and "map (base64Char u) (base64Sextets k) @ replicate j 61 \<noteq> []"
    and "\<not> isQuote (hd (map (base64Char u) (base64Sextets k) @ replicate j 61))"
proof -
  let ?b = "map (base64Char u) (base64Sextets k)"
  have len: "length ?b = 43" using assms(1) by (rule length_chars)
  have sym: "list_all isBase64Symbol ?b" by (rule symbols_chars [OF sextets_bounded])
  show "decodeNormalized (?b @ replicate j 61) = Inr k"
    using decodeNormalized_base64 [OF len sym assms(2)] by (simp add: decodeBody_key)
  from len obtain c cs where c: "?b = c # cs" by (cases ?b) auto
  with sym have "isBase64Symbol c" by simp
  then have "\<not> isQuote c" by (rule symbol_facts)
  then show "?b @ replicate j 61 \<noteq> []" and "\<not> isQuote (hd (?b @ replicate j 61))"
    unfolding c by simp_all
qed

lemma hex_form_decodes:
  assumes "length k = 32"
  shows "hexOfBytes k \<noteq> []" and "\<not> isQuote (hd (hexOfBytes k))"
    and "js ''0x'' @ hexOfBytes k \<noteq> []" and "\<not> isQuote (hd (js ''0x'' @ hexOfBytes k))"
proof -
  from assms(1) obtain c cs where c: "hexOfBytes k = c # cs"
    using length_hexOfBytes [of k] by (cases "hexOfBytes k") auto
  with hex_hexOfBytes [of k] have "isHexDigit c" by simp
  then have "\<not> isQuote c" by (auto simp: isHexDigit_def isQuote_def)
  then show "hexOfBytes k \<noteq> []" and "\<not> isQuote (hd (hexOfBytes k))"
    unfolding c by simp_all
  show "js ''0x'' @ hexOfBytes k \<noteq> []" and "\<not> isQuote (hd (js ''0x'' @ hexOfBytes k))"
    by (simp_all add: js_def isQuote_def)
qed

lemma representation_decodes:
  assumes "length k = 32" "m \<in> set (keyRepresentations k)"
  shows "decodeNormalized m = Inr k \<and> m \<noteq> [] \<and> \<not> isQuote (hd m)"
proof -
  note forms = base64_forms [OF assms(1)]
  note b64 = base64_form_decodes [OF assms(1)]
  note hex = hex_form_decodes [OF assms(1)]
  from assms(2) have "m = hexOfBytes k \<or> m = js ''0x'' @ hexOfBytes k \<or>
      m = base64OfBytes k \<or> m = withoutPadding (base64OfBytes k) \<or>
      m = base64urlOfBytes k \<or> m = withoutPadding (base64urlOfBytes k)"
    by (simp add: keyRepresentations_def)
  then show ?thesis
  proof (elim disjE)
    assume "m = hexOfBytes k"
    then show ?thesis using decodeNormalized_hex [OF assms(1)] hex(1,2) by simp
  next
    assume "m = js ''0x'' @ hexOfBytes k"
    then show ?thesis using decodeNormalized_0x_hex [OF assms(1)] hex(3,4) by simp
  next
    assume "m = base64OfBytes k"
    then show ?thesis unfolding forms(1) using b64 [of 1 False] by simp
  next
    assume "m = withoutPadding (base64OfBytes k)"
    then show ?thesis unfolding forms(3) using b64 [of 0 False] by simp
  next
    assume "m = base64urlOfBytes k"
    then show ?thesis unfolding forms(2) using b64 [of 1 True] by simp
  next
    assume "m = withoutPadding (base64urlOfBytes k)"
    then show ?thesis unfolding forms(4) using b64 [of 0 True] by simp
  qed
qed

lemma presents_self: "list_all (\<lambda>c. \<not> isWhiteSpace c) m \<Longrightarrow> presents m m"
  by (simp add: presents_def removeWhitespace_def list_all_iff)

lemma hexDigit_not_whitespace: "isHexDigit c \<Longrightarrow> \<not> isWhiteSpace c"
  by (auto simp: isHexDigit_def isWhiteSpace_def Let_def)

lemma decode_hexOfBytes:
  assumes "length k = 32"
  shows "decodeAes256KeyBytes (hexOfBytes k) = Inr k"
proof -
  have "list_all (\<lambda>c. \<not> isWhiteSpace c) (hexOfBytes k)"
    using hex_hexOfBytes [of k] hexDigit_not_whitespace by (auto simp: list_all_iff)
  then have p: "presents (hexOfBytes k) (hexOfBytes k)" by (rule presents_self)
  have "hexOfBytes k \<in> set (keyRepresentations k)" by (simp add: keyRepresentations_def)
  from representation_decodes [OF assms this] normalized_presented [OF p]
  show ?thesis by (simp add: decode_staged)
qed

lemma sampleKeyHex_eq: "sampleKeyHex = hexOfBytes sampleKeyBytes"
  by (simp add: sampleKeyHex_def sampleKeyBytes_def hexOfBytes_def hexDigitChar_def js_def)

lemma decode_sampleKeyHex: "decodeAes256KeyBytes sampleKeyHex = Inr sampleKeyBytes"
  unfolding sampleKeyHex_eq by (rule decode_hexOfBytes) (simp add: sampleKeyBytes_def)

text \<open>
  Claim C4. For a key of 32 bytes, take its hexadecimal form, the same with \<open>0x\<close> in
  front, its base64 form and its base64url form, each of the two with and without
  padding. Every text that presents one of them, as it is or within one pair of
  matching quotes, with white space added anywhere, decodes to the 32 bytes of the key.
\<close>

theorem decodeAes256KeyBytes_representations:
  assumes "length k = 32" "m \<in> set (keyRepresentations k)" "presents t m"
  shows "decodeAes256KeyBytes t = Inr k"
  using representation_decodes [OF assms(1,2)] normalized_presented [OF assms(3)]
  by (simp add: decode_staged)

text \<open>
  Two presentations of the sample key: quoted hexadecimal with white space around it,
  and base64url without padding with a space inside.
\<close>

lemma sample_base64url:
  "withoutPadding (base64urlOfBytes sampleKeyBytes) = js ''AAECAwQFBgcICQoLDA0ODxAREhMUFRYXGBkaGxwdHh8''"
  by (simp add: withoutPadding_def base64urlOfBytes_def base64Padding_def base64Char_def
      sampleKeyBytes_def js_def Let_def)

theorem decodeAes256KeyBytes_representations_witness:
  "length sampleKeyBytes = 32 \<and>
   hexOfBytes sampleKeyBytes \<in> set (keyRepresentations sampleKeyBytes) \<and>
   presents (js ''  '' @ js [CHR 0x22] @ sampleKeyHex @ js [CHR 0x22, CHR 0x0A])
     (hexOfBytes sampleKeyBytes) \<and>
   decodeAes256KeyBytes (js ''  '' @ js [CHR 0x22] @ sampleKeyHex @ js [CHR 0x22, CHR 0x0A])
     = Inr sampleKeyBytes \<and>
   withoutPadding (base64urlOfBytes sampleKeyBytes) \<in> set (keyRepresentations sampleKeyBytes) \<and>
   presents (js ''AAECAwQFBgcICQoL DA0ODxAREhMUFRYXGBkaGxwdHh8'')
     (withoutPadding (base64urlOfBytes sampleKeyBytes)) \<and>
   decodeAes256KeyBytes (js ''AAECAwQFBgcICQoL DA0ODxAREhMUFRYXGBkaGxwdHh8'') = Inr sampleKeyBytes"
proof -
  have l: "length sampleKeyBytes = 32" by (simp add: sampleKeyBytes_def)
  have m1: "hexOfBytes sampleKeyBytes \<in> set (keyRepresentations sampleKeyBytes)"
    and m2: "withoutPadding (base64urlOfBytes sampleKeyBytes) \<in> set (keyRepresentations sampleKeyBytes)"
    by (simp_all add: keyRepresentations_def)
  have p1: "presents (js ''  '' @ js [CHR 0x22] @ sampleKeyHex @ js [CHR 0x22, CHR 0x0A])
      (hexOfBytes sampleKeyBytes)"
    unfolding sampleKeyHex_eq [symmetric]
    by (simp add: presents_def removeWhitespace_def sampleKeyHex_def js_def isWhiteSpace_def)
  have p2: "presents (js ''AAECAwQFBgcICQoL DA0ODxAREhMUFRYXGBkaGxwdHh8'')
      (withoutPadding (base64urlOfBytes sampleKeyBytes))"
    unfolding sample_base64url
    by (simp add: presents_def removeWhitespace_def js_def isWhiteSpace_def)
  show ?thesis
    using decodeAes256KeyBytes_representations [OF l m1 p1]
      decodeAes256KeyBytes_representations [OF l m2 p2] l m1 m2 p1 p2
    by blast
qed

section \<open>The classes of key material\<close>

lemma hexMatch_iff: "hexMatch m \<longleftrightarrow> isHexKeyText m"
proof (cases "take 2 m = js ''0x''")
  case True
  then have s: "startsWith m (js ''0x'')" by (simp add: startsWith_def js_def numeral_2_eq_2)
  then have "\<not> list_all isHexDigit m" using hex_not_prefixed by blast
  with True s show ?thesis
    by (simp add: hexMatch_def isHexKeyText_def)
next
  case False
  then have "\<not> startsWith m (js ''0x'')" by (simp add: startsWith_def js_def numeral_2_eq_2)
  with False show ?thesis
    by (simp add: hexMatch_def isHexKeyText_def)
qed

lemma length_hexBytes: "length (hexBytes h) = 32"
  by (simp add: hexBytes_def)

lemma removeWhitespace_clean: "list_all (\<lambda>c. \<not> isWhiteSpace c) (removeWhitespace s)"
  by (simp add: removeWhitespace_def list_all_iff)

lemma decodeBase64Material_error:
  "decodeBase64Material m = Inl e \<Longrightarrow> \<exists>p. e = InvalidKeyEncryptionSecret p"
  by (auto simp: decodeBase64Material_def Let_def split: if_splits option.splits)

lemma decodeBase64Material_length:
  "decodeBase64Material m = Inr key \<Longrightarrow> length key = 32"
  by (auto simp: decodeBase64Material_def Let_def split: if_splits option.splits)

lemma decodeNormalized_classes:
  assumes "list_all (\<lambda>c. \<not> isWhiteSpace c) m"
  shows "isHexKeyText m \<Longrightarrow> \<exists>key. decodeNormalized m = Inr key \<and> length key = 32"
    and "\<not> isHexKeyText m \<Longrightarrow> isBase64Text m \<Longrightarrow> base64DecodedLength m = 32 \<Longrightarrow>
           \<exists>key. decodeNormalized m = Inr key \<and> length key = 32"
    and "\<not> isHexKeyText m \<Longrightarrow> isBase64Text m \<Longrightarrow> base64DecodedLength m \<noteq> 32 \<Longrightarrow>
           decodeNormalized m =
             Inl (InvalidKeyEncryptionSecret (WrongByteCount (base64DecodedLength m)))"
    and "\<not> isHexKeyText m \<Longrightarrow> \<not> isBase64Text m \<Longrightarrow>
           \<exists>p. decodeNormalized m = Inl (InvalidKeyEncryptionSecret p)"
proof -
  show "\<exists>key. decodeNormalized m = Inr key \<and> length key = 32" if "isHexKeyText m"
    using that by (simp add: decodeNormalized_def hexMatch_iff length_hexBytes)
  show "\<exists>key. decodeNormalized m = Inr key \<and> length key = 32"
    if h: "\<not> isHexKeyText m" and t: "isBase64Text m" and l: "base64DecodedLength m = 32"
  proof -
    have d: "decodeNormalized m = Inr (decodeBody (base64Body m))"
      using h l decodeBase64Material_text [OF t] by (simp add: decodeNormalized_def hexMatch_iff)
    then have "decodeBase64Material m = Inr (decodeBody (base64Body m))"
      using h by (simp add: decodeNormalized_def hexMatch_iff)
    then have "length (decodeBody (base64Body m)) = 32"
      by (rule decodeBase64Material_length)
    with d show ?thesis by simp
  qed
  show "decodeNormalized m = Inl (InvalidKeyEncryptionSecret (WrongByteCount (base64DecodedLength m)))"
    if "\<not> isHexKeyText m" "isBase64Text m" "base64DecodedLength m \<noteq> 32"
    using that decodeBase64Material_text [of m] by (simp add: decodeNormalized_def hexMatch_iff)
  show "\<exists>p. decodeNormalized m = Inl (InvalidKeyEncryptionSecret p)"
    if h: "\<not> isHexKeyText m" and t: "\<not> isBase64Text m"
  proof (cases "decodeBase64Material m")
    case (Inl e)
    with h show ?thesis
      using decodeBase64Material_error [OF Inl] by (auto simp: decodeNormalized_def hexMatch_iff)
  next
    case (Inr key)
    with t decodeBase64Material_Inr [OF assms Inr] show ?thesis by simp
  qed
qed

lemma stripped_or_single_quote:
  assumes "trim s \<noteq> []"
  shows "removeWhitespace (unquote (trim s)) = strippedMaterial s \<or>
         (removeWhitespace (unquote (trim s)) = [] \<and> length (strippedMaterial s) = 1 \<and>
          isQuote (hd (strippedMaterial s)))"
proof -
  define raw where "raw = trim s"
  have ne: "raw \<noteq> []" using assms by (simp add: raw_def)
  show ?thesis
  proof (cases "isQuote (hd raw) \<and> last raw = hd raw")
    case False
    then have "unquote raw = raw" "stripQuotes raw = raw"
      using ne by (auto simp: unquote_eq stripQuotes_def)
    then show ?thesis by (simp add: strippedMaterial_def raw_def)
  next
    case True
    then have u: "unquote raw = trim (butlast (tl raw))"
      using ne by (simp add: unquote_eq)
    show ?thesis
    proof (cases "2 \<le> length raw")
      case l: True
      with True have "stripQuotes raw = butlast (tl raw)" by (simp add: stripQuotes_def)
      with u show ?thesis
        by (simp add: strippedMaterial_def raw_def [symmetric] removeWhitespace_trim)
    next
      case l: False
      with ne obtain q where raw: "raw = [q]"
        by (cases raw) (auto simp: not_le)
      with True have q: "isQuote q" by simp
      have "stripQuotes raw = [q]" by (simp add: raw stripQuotes_def)
      moreover have "removeWhitespace [q] = [q]"
        using quote_not_whitespace [OF q] by (simp add: removeWhitespace_def)
      moreover have "removeWhitespace (unquote raw) = []"
        unfolding u by (simp add: raw trim_def removeWhitespace_def)
      ultimately show ?thesis
        using q by (simp add: strippedMaterial_def raw_def [symmetric])
    qed
  qed
qed

lemma single_quote_classes:
  assumes "length m = 1" "isQuote (hd m)"
  shows "\<not> isHexKeyText m" and "\<not> isBase64Text m"
proof -
  from assms obtain q where m: "m = [q]" and q: "isQuote q"
    by (cases m) auto
  show "\<not> isHexKeyText m"
    by (simp add: m isHexKeyText_def js_def)
  have "q \<noteq> 61" "\<not> isBase64Symbol q"
    using q by (auto simp: isQuote_def isBase64Symbol_def)
  then show "\<not> isBase64Text m"
    by (simp add: m isBase64Text_def base64Body_def)
qed

lemma decodeNormalized_empty:
  "decodeNormalized [] = Inl (InvalidKeyEncryptionSecret (WrongByteCount 0))"
proof -
  have "isBase64Text []" by (simp add: isBase64Text_def base64Body_def base64Pad_def)
  from decodeBase64Material_text [OF this] show ?thesis
    by (simp add: decodeNormalized_def hexMatch_def startsWith_def js_def base64DecodedLength_def
        base64Body_def)
qed

text \<open>
  Claim C5. \<open>decodeAes256KeyBytes\<close> fails with one of its four errors on a text that
  is empty after trimming; on a text whose material, after one layer of matching quotes
  and all white space are removed, is neither 64 hexadecimal digits (with or without
  \<open>0x\<close>) nor base64 or base64url text; and on base64 text that decodes to a number of
  bytes other than 32, which the error reports. On every other text it returns a key of
  exactly 32 bytes.
\<close>

theorem decodeAes256KeyBytes_classes:
  "(emptyAfterTrimming s \<longrightarrow>
      decodeAes256KeyBytes s = Inl (InvalidKeyEncryptionSecret ValueEmpty)) \<and>
   (\<not> isHexKeyText (strippedMaterial s) \<and> \<not> isBase64Text (strippedMaterial s) \<longrightarrow>
      (\<exists>p. decodeAes256KeyBytes s = Inl (InvalidKeyEncryptionSecret p))) \<and>
   (\<not> emptyAfterTrimming s \<and> \<not> isHexKeyText (strippedMaterial s) \<and>
    isBase64Text (strippedMaterial s) \<and> base64DecodedLength (strippedMaterial s) \<noteq> 32 \<longrightarrow>
      decodeAes256KeyBytes s =
        Inl (InvalidKeyEncryptionSecret (WrongByteCount (base64DecodedLength (strippedMaterial s))))) \<and>
   (\<not> emptyAfterTrimming s \<and>
    (isHexKeyText (strippedMaterial s) \<or>
     isBase64Text (strippedMaterial s) \<and> base64DecodedLength (strippedMaterial s) = 32) \<longrightarrow>
      (\<exists>key. decodeAes256KeyBytes s = Inr key \<and> length key = 32))"
proof (cases "trim s = []")
  case True
  then have "strippedMaterial s = []"
    by (simp add: strippedMaterial_def stripQuotes_def removeWhitespace_def)
  moreover have "isBase64Text []" by (simp add: isBase64Text_def base64Body_def base64Pad_def)
  ultimately show ?thesis
    using True by (simp add: emptyAfterTrimming_def decode_staged)
next
  case False
  define m where "m = strippedMaterial s"
  have clean: "list_all (\<lambda>c. \<not> isWhiteSpace c) m"
    unfolding m_def strippedMaterial_def by (rule removeWhitespace_clean)
  note classes = decodeNormalized_classes [OF clean]
  from stripped_or_single_quote [OF False] show ?thesis
  proof
    assume "removeWhitespace (unquote (trim s)) = strippedMaterial s"
    then have d: "decodeAes256KeyBytes s = decodeNormalized m"
      using False by (simp add: decode_staged m_def)
    show ?thesis
      unfolding d m_def [symmetric] emptyAfterTrimming_def
      using False classes by blast
  next
    assume a: "removeWhitespace (unquote (trim s)) = [] \<and> length (strippedMaterial s) = 1 \<and>
          isQuote (hd (strippedMaterial s))"
    then have d: "decodeAes256KeyBytes s = Inl (InvalidKeyEncryptionSecret (WrongByteCount 0))"
      using False by (simp add: decode_staged decodeNormalized_empty)
    from a have "\<not> isHexKeyText m" "\<not> isBase64Text m"
      unfolding m_def using single_quote_classes by blast+
    then show ?thesis
      unfolding d m_def [symmetric] emptyAfterTrimming_def using False by simp
  qed
qed

text \<open>
  One text of each class: white space only, a text that is not base64, the base64 of
  16 bytes, and the sample key.
\<close>

lemma trim_eval:
  "trim (js ''not-base64!!!!'') = js ''not-base64!!!!''"
  "trim (js ''AAECAwQFBgcICQoLDA0ODw=='') = js ''AAECAwQFBgcICQoLDA0ODw==''"
  "trim (js ''   '') = []"
  by (simp_all add: trim_def js_def isWhiteSpace_def)

lemma stripped_eval:
  "strippedMaterial (js ''not-base64!!!!'') = js ''not-base64!!!!''"
  "strippedMaterial (js ''AAECAwQFBgcICQoLDA0ODw=='') = js ''AAECAwQFBgcICQoLDA0ODw==''"
  by (simp_all add: strippedMaterial_def trim_eval)
     (simp_all add: stripQuotes_def removeWhitespace_def js_def isWhiteSpace_def isQuote_def)

lemma class_eval:
  "\<not> isHexKeyText (js ''not-base64!!!!'')"
  "\<not> isBase64Text (js ''not-base64!!!!'')"
  "\<not> isHexKeyText (js ''AAECAwQFBgcICQoLDA0ODw=='')"
  "isBase64Text (js ''AAECAwQFBgcICQoLDA0ODw=='')"
  "base64DecodedLength (js ''AAECAwQFBgcICQoLDA0ODw=='') = 16"
  by (simp_all add: isHexKeyText_def isBase64Text_def base64DecodedLength_def base64Body_def
      base64Pad_def isBase64Symbol_def js_def)


lemma sample_hex_class:
  "\<not> emptyAfterTrimming sampleKeyHex" "isHexKeyText (strippedMaterial sampleKeyHex)"
proof -
  have t: "trim sampleKeyHex = sampleKeyHex"
    by (simp add: trim_def sampleKeyHex_def js_def isWhiteSpace_def)
  then show "\<not> emptyAfterTrimming sampleKeyHex"
    by (simp add: emptyAfterTrimming_def) (simp add: sampleKeyHex_def js_def)
  have "strippedMaterial sampleKeyHex = sampleKeyHex"
    unfolding strippedMaterial_def t
    by (simp add: stripQuotes_def removeWhitespace_def sampleKeyHex_def js_def isWhiteSpace_def
        isQuote_def)
  moreover have "isHexKeyText sampleKeyHex"
    by (simp add: isHexKeyText_def sampleKeyHex_def js_def isHexDigit_def)
  ultimately show "isHexKeyText (strippedMaterial sampleKeyHex)" by simp
qed

theorem decodeAes256KeyBytes_classes_witness:
  "emptyAfterTrimming (js ''   '') \<and>
   decodeAes256KeyBytes (js ''   '') = Inl (InvalidKeyEncryptionSecret ValueEmpty) \<and>
   \<not> isHexKeyText (strippedMaterial (js ''not-base64!!!!'')) \<and>
   \<not> isBase64Text (strippedMaterial (js ''not-base64!!!!'')) \<and>
   (\<exists>p. decodeAes256KeyBytes (js ''not-base64!!!!'') = Inl (InvalidKeyEncryptionSecret p)) \<and>
   \<not> emptyAfterTrimming (js ''AAECAwQFBgcICQoLDA0ODw=='') \<and>
   isBase64Text (strippedMaterial (js ''AAECAwQFBgcICQoLDA0ODw=='')) \<and>
   decodeAes256KeyBytes (js ''AAECAwQFBgcICQoLDA0ODw=='') =
     Inl (InvalidKeyEncryptionSecret (WrongByteCount 16)) \<and>
   \<not> emptyAfterTrimming sampleKeyHex \<and> isHexKeyText (strippedMaterial sampleKeyHex) \<and>
   (\<exists>key. decodeAes256KeyBytes sampleKeyHex = Inr key \<and> length key = 32)"
proof -
  have e: "emptyAfterTrimming (js ''   '')"
    "\<not> emptyAfterTrimming (js ''AAECAwQFBgcICQoLDA0ODw=='')"
    by (simp_all add: emptyAfterTrimming_def trim_eval) (simp add: js_def)
  show ?thesis
    using decodeAes256KeyBytes_classes [of "js ''   ''"]
      decodeAes256KeyBytes_classes [of "js ''not-base64!!!!''"]
      decodeAes256KeyBytes_classes [of "js ''AAECAwQFBgcICQoLDA0ODw==''"]
      decodeAes256KeyBytes_classes [of sampleKeyHex]
    by (simp add: e stripped_eval class_eval sample_hex_class)
qed


section \<open>Counter mode and the tag\<close>

lemma length_bytesOfBlock: "length (bytesOfBlock x) = 16"
  by (simp add: bytesOfBlock_def)

lemma length_concat_blocks: "length (concat (map (\<lambda>i. bytesOfBlock (f i)) is)) = 16 * length is"
  by (induction "is") (simp_all add: length_bytesOfBlock)

lemma length_keystream: "length (keystream key icb n) = 16 * ((n + 15) div 16)"
  by (simp add: keystream_def length_concat_blocks)

lemma keystream_long_enough: "n \<le> length (keystream key icb n)"
  unfolding length_keystream by presburger

lemma length_gctr: "length (gctr key icb xs) = length xs"
  using keystream_long_enough [of "length xs" key icb]
  by (simp add: gctr_def xorBytes_def)

lemma xor_twice: "length xs \<le> length ks \<Longrightarrow> map2 (XOR) (map2 (XOR) xs ks) ks = (xs :: byte list)"
proof (induction xs arbitrary: ks)
  case Nil
  then show ?case by simp
next
  case (Cons x xs)
  then obtain k ks' where ks: "ks = k # ks'" by (cases ks) auto
  with Cons show ?case by (simp add: xor.assoc)
qed

lemma gctr_involution: "gctr key icb (gctr key icb xs) = xs"
proof -
  have "gctr key icb (gctr key icb xs) =
      map2 (XOR) (map2 (XOR) xs (keystream key icb (length xs))) (keystream key icb (length xs))"
    by (simp add: gctr_def [of key icb "gctr key icb xs"] length_gctr)
       (simp add: gctr_def xorBytes_def)
  then show ?thesis
    using xor_twice [OF keystream_long_enough [of "length xs" key icb]] by simp
qed

lemma length_gcmTag: "length (gcmTag key iv c) = 16"
  by (simp add: gcmTag_def Let_def length_gctr length_bytesOfBlock)

lemma length_gcmEncrypt: "length (gcmEncrypt key iv p) = length p + 16"
  by (simp add: gcmEncrypt_def Let_def length_gctr length_gcmTag)

lemma gcmDecrypt_gcmEncrypt: "gcmDecrypt key iv (gcmEncrypt key iv p) = Some p"
proof -
  define c where "c = gctr key (inc32 (gcmJ0 (aesBlock key 0) iv)) p"
  have enc: "gcmEncrypt key iv p = c @ gcmTag key iv c"
    by (simp add: gcmEncrypt_def Let_def c_def)
  have len: "length (c @ gcmTag key iv c) - 16 = length c"
    by (simp add: length_gcmTag)
  have "gcmDecrypt key iv (c @ gcmTag key iv c) =
      Some (gctr key (inc32 (gcmJ0 (aesBlock key 0) iv)) c)"
    unfolding gcmDecrypt_def Let_def len by (simp add: length_gcmTag)
  then show ?thesis
    by (simp add: enc) (simp add: c_def gctr_involution)
qed


lemma gcmDecrypt_Some_iff:
  "gcmDecrypt key iv ct = Some p \<longleftrightarrow>
     16 \<le> length ct \<and> drop (length ct - 16) ct = gcmTag key iv (take (length ct - 16) ct) \<and>
     p = gctr key (inc32 (gcmJ0 (aesBlock key 0) iv)) (take (length ct - 16) ct)"
  by (auto simp: gcmDecrypt_def Let_def)

subsection \<open>The hash of an altered ciphertext\<close>














section \<open>The text codecs\<close>

lemma utf8Decode_ascii:
  "cp < 0x80 \<Longrightarrow> utf8Decode (utf8EncodeScalar cp @ rest) = cp # utf8Decode rest"
  by (simp add: utf8EncodeScalar_def unat_of_nat_8 del: of_nat_add)

lemma utf8Decode_two:
  assumes "0x80 \<le> cp" "cp < 0x800"
  shows "utf8Decode (utf8EncodeScalar cp @ rest) = cp # utf8Decode rest"
proof -
  define a where "a = cp div 64"
  define b where "b = cp mod 64"
  have cp: "cp = a * 64 + b" and b: "b < 64" and a: "2 \<le> a" "a < 32"
    using assms by (auto simp: a_def b_def)
  have enc: "utf8EncodeScalar cp = [of_nat (0xC0 + a), of_nat (0x80 + b)]"
    using assms by (simp add: utf8EncodeScalar_def a_def b_def del: of_nat_add)
  have u1: "unat (of_nat (0xC0 + a) :: byte) = 0xC0 + a"
    using a by (intro unat_of_nat_8) simp
  have u2: "unat (of_nat (0x80 + b) :: byte) = 0x80 + b"
    using b by (intro unat_of_nat_8) simp
  show ?thesis
    unfolding enc using a b
    by (simp add: u1 u2 inRange_def cp del: of_nat_add)
qed




lemma utf8Decode_three:
  assumes "0x800 \<le> cp" "cp < 0x10000" "\<not> (0xD800 \<le> cp \<and> cp \<le> 0xDFFF)"
  shows "utf8Decode (utf8EncodeScalar cp @ rest) = cp # utf8Decode rest"
proof -
  define q where "q = cp div 64"
  define c where "c = cp mod 64"
  define a where "a = q div 64"
  define b where "b = q mod 64"
  have cq: "cp = q * 64 + c" and c: "c < 64"
    by (simp_all add: q_def c_def)
  have qa: "q = a * 64 + b" and b: "b < 64"
    by (simp_all add: a_def b_def)
  have cp: "cp = a * 4096 + b * 64 + c"
    using cq qa by simp
  have a: "a < 16"
    using assms(2) b c unfolding cp by linarith
  have lo: "a = 0 \<Longrightarrow> 32 \<le> b"
    using assms(1) c unfolding cp by linarith
  have hi: "a = 13 \<Longrightarrow> b \<le> 31"
    using assms(3) b c unfolding cp by linarith
  have d1: "cp div 4096 = a"
    using div_mult2_eq [of cp 64 64] by (simp add: a_def q_def)
  have enc: "utf8EncodeScalar cp = [of_nat (0xE0 + a), of_nat (0x80 + b), of_nat (0x80 + c)]"
    using assms(1,2) d1 by (simp add: utf8EncodeScalar_def b_def q_def c_def del: of_nat_add)
  have u1: "unat (of_nat (0xE0 + a) :: byte) = 0xE0 + a"
    using a by (intro unat_of_nat_8) simp
  have u2: "unat (of_nat (0x80 + b) :: byte) = 0x80 + b"
    using b by (intro unat_of_nat_8) simp
  have u3: "unat (of_nat (0x80 + c) :: byte) = 0x80 + c"
    using c by (intro unat_of_nat_8) simp
  show ?thesis
    unfolding enc using a b c lo hi
    by (simp add: u1 u2 u3 inRange_def cp [symmetric] del: of_nat_add)
qed

lemma utf8Decode_four:
  assumes "0x10000 \<le> cp" "cp < 0x110000"
  shows "utf8Decode (utf8EncodeScalar cp @ rest) = cp # utf8Decode rest"
proof -
  define q where "q = cp div 64"
  define d where "d = cp mod 64"
  define r where "r = q div 64"
  define c where "c = q mod 64"
  define a where "a = r div 64"
  define b where "b = r mod 64"
  have cq: "cp = q * 64 + d" and d: "d < 64"
    by (simp_all add: q_def d_def)
  have qr: "q = r * 64 + c" and c: "c < 64"
    by (simp_all add: r_def c_def)
  have ra: "r = a * 64 + b" and b: "b < 64"
    by (simp_all add: a_def b_def)
  have cp: "cp = a * 262144 + b * 4096 + c * 64 + d"
    using cq qr ra by simp
  have a: "a < 5"
    using assms(2) b c d unfolding cp by linarith
  have lo: "a = 0 \<Longrightarrow> 16 \<le> b"
    using assms(1) c d unfolding cp by linarith
  have hi: "a = 4 \<Longrightarrow> b \<le> 15"
    using assms(2) c d unfolding cp by linarith
  have d2: "cp div 4096 = r"
    using div_mult2_eq [of cp 64 64] by (simp add: r_def q_def)
  have d1: "cp div 262144 = a"
    using div_mult2_eq [of cp 4096 64] by (simp add: a_def d2)
  have enc: "utf8EncodeScalar cp =
      [of_nat (0xF0 + a), of_nat (0x80 + b), of_nat (0x80 + c), of_nat (0x80 + d)]"
    using assms d1 d2
    by (simp add: utf8EncodeScalar_def b_def c_def q_def d_def del: of_nat_add)
  have u1: "unat (of_nat (0xF0 + a) :: byte) = 0xF0 + a"
    using a by (intro unat_of_nat_8) simp
  have u2: "unat (of_nat (0x80 + b) :: byte) = 0x80 + b"
    using b by (intro unat_of_nat_8) simp
  have u3: "unat (of_nat (0x80 + c) :: byte) = 0x80 + c"
    using c by (intro unat_of_nat_8) simp
  have u4: "unat (of_nat (0x80 + d) :: byte) = 0x80 + d"
    using d by (intro unat_of_nat_8) simp
  show ?thesis
    unfolding enc using a b c d lo hi
    by (simp add: u1 u2 u3 u4 inRange_def cp [symmetric] del: of_nat_add)
qed

lemma utf8Decode_scalar:
  "isScalarValue cp \<Longrightarrow> utf8Decode (utf8EncodeScalar cp @ rest) = cp # utf8Decode rest"
  using utf8Decode_ascii [of cp rest] utf8Decode_two [of cp rest] utf8Decode_three [of cp rest]
    utf8Decode_four [of cp rest]
  unfolding isScalarValue_def by linarith

lemma utf8Decode_scalars:
  "list_all isScalarValue cps \<Longrightarrow> utf8Decode (concat (map utf8EncodeScalar cps)) = cps"
  by (induction cps) (simp_all add: utf8Decode_scalar)

lemma toScalarValues_scalar: "list_all isScalarValue (toScalarValues s)"
proof (induction s rule: toScalarValues.induct)
  case 1
  then show ?case by simp
next
  case (2 c)
  then show ?case
    using unat_jschar_less [of c]
    by (auto simp: isScalarValue_def isLeadSurrogate_def isTrailSurrogate_def)
next
  case (3 c d cs)
  then show ?case
    using unat_jschar_less [of c] unat_jschar_less [of d]
    by (auto simp: isScalarValue_def isLeadSurrogate_def isTrailSurrogate_def)
qed

lemma utf8Decode_textEncode: "utf8Decode (textEncode s) = toScalarValues s"
  by (simp add: textEncode_def utf8Decode_scalars toScalarValues_scalar)

lemma fromCodePoint_unit: "fromCodePoint (unat (c :: jschar)) = [c]"
  using unat_jschar_less [of c] by (simp add: fromCodePoint_def)

lemma fromCodePoint_pair:
  assumes "isLeadSurrogate c" "isTrailSurrogate d"
  shows "fromCodePoint (0x10000 + (unat c - 0xD800) * 0x400 + (unat d - 0xDC00)) = [c, d]"
proof -
  define h where "h = unat c - 0xD800"
  define l where "l = unat d - 0xDC00"
  have c: "unat c = 0xD800 + h" and d: "unat d = 0xDC00 + l" and l: "l < 0x400"
    using assms by (auto simp: h_def l_def isLeadSurrogate_def isTrailSurrogate_def)
  have "of_nat (0xD800 + h) = c" "of_nat (0xDC00 + l) = d"
    unfolding c [symmetric] d [symmetric] by simp_all
  then show ?thesis
    using l by (simp add: fromCodePoint_def h_def [symmetric] l_def [symmetric] del: of_nat_add)
qed

lemma fromCodePoint_toScalarValues:
  "isWellFormed s \<Longrightarrow> concat (map fromCodePoint (toScalarValues s)) = s"
proof (induction s rule: isWellFormed.induct)
  case 1
  then show ?case by simp
next
  case (2 c)
  then show ?case by (simp add: fromCodePoint_unit)
next
  case (3 c d cs)
  show ?case
  proof (cases "isLeadSurrogate c")
    case True
    with 3 show ?thesis by (simp add: fromCodePoint_pair)
  next
    case False
    with 3 show ?thesis by (simp add: fromCodePoint_unit)
  qed
qed

lemma utf8Decode_bom: "utf8Decode (0xEF # 0xBB # 0xBF # rest) = 0xFEFF # utf8Decode rest"
  by (simp add: inRange_def)

lemma toScalarValues_head:
  "\<exists>cp rest. toScalarValues (c # cs) = cp # rest \<and> (cp = unat c \<or> cp = 0xFFFD \<or> 0x10000 \<le> cp)"
  by (cases cs) auto

lemma textEncode_no_bom:
  assumes "\<not> startsWith s [0xFEFF]"
  shows "take 3 (textEncode s) \<noteq> [0xEF, 0xBB, 0xBF]"
proof (cases s)
  case Nil
  then show ?thesis by (simp add: textEncode_def)
next
  case (Cons c cs)
  with assms have "c \<noteq> 0xFEFF"
    by (auto simp: startsWith_def)
  then have c: "unat c \<noteq> 0xFEFF"
    by (simp add: word_unat_eq_iff)
  from toScalarValues_head [of c cs] obtain cp rest where
    sv: "toScalarValues s = cp # rest" and cp: "cp = unat c \<or> cp = 0xFFFD \<or> 0x10000 \<le> cp"
    unfolding Cons by blast
  from cp c have ne: "cp \<noteq> 0xFEFF" by auto
  show ?thesis
  proof
    assume bom: "take 3 (textEncode s) = [0xEF, 0xBB, 0xBF]"
    have "textEncode s = take 3 (textEncode s) @ drop 3 (textEncode s)" by simp
    then have "textEncode s = 0xEF # 0xBB # 0xBF # drop 3 (textEncode s)"
      unfolding bom by simp
    then have "utf8Decode (textEncode s) = 0xFEFF # utf8Decode (drop 3 (textEncode s))"
      using utf8Decode_bom by metis
    with sv ne show False
      by (simp add: utf8Decode_textEncode)
  qed
qed

lemma textDecode_textEncode:
  "isWellFormed s \<Longrightarrow> \<not> startsWith s [0xFEFF] \<Longrightarrow> textDecode (textEncode s) = s"
  by (simp add: textDecode_def textEncode_no_bom utf8Decode_textEncode fromCodePoint_toScalarValues)

section \<open>Encrypting and decrypting\<close>

lemma decodeAes256KeyBytes_length: "decodeAes256KeyBytes s = Inr key \<Longrightarrow> length key = 32"
  unfolding decodeAes256KeyBytes_def Let_def
  by (auto split: if_splits option.splits)

lemma importKey_decoded: "decodeAes256KeyBytes s = Inr key \<Longrightarrow> importKey s = Inr key"
  by (simp add: importKey_def decodeAes256KeyBytes_length)

lemma importKey_Inr: "importKey s = Inr key \<Longrightarrow> decodeAes256KeyBytes s = Inr key"
  by (auto simp: importKey_def split: sum.splits if_splits)

lemma encrypt_decoded:
  "decodeAes256KeyBytes s = Inr key \<Longrightarrow>
   encrypt rng plaintext s =
     Inr (map rng [0..<12] @ gcmEncrypt key (map rng [0..<12]) (textEncode plaintext),
          \<lambda>i. rng (12 + i))"
  by (simp add: encrypt_def importKey_decoded getRandomValues_def)

lemma decrypt_decoded:
  "decodeAes256KeyBytes s = Inr key \<Longrightarrow>
   decrypt blob s =
     (case gcmDecrypt key (take 12 blob) (drop 12 blob) of
        None \<Rightarrow> Inl OperationError
      | Some plaintext \<Rightarrow> Inr (textDecode plaintext))"
  using slice_prefix [of blob 12] sliceFrom_nat [of blob 12]
  by (simp add: decrypt_def importKey_decoded)


lemma decrypt_encrypted:
  assumes "decodeAes256KeyBytes s = Inr key" "length iv = 12"
  shows "decrypt (iv @ gcmEncrypt key iv bytes) s = Inr (textDecode bytes)"
  using assms by (simp add: decrypt_decoded gcmDecrypt_gcmEncrypt)

text \<open>
  Claim C1, amended. For every key material that decodes to a key and every
  well-formed plaintext that does not begin with U+FEFF, the empty one and those with
  multi-byte characters among them, decrypting what \<open>encrypt\<close> returns gives the
  plaintext back.
\<close>

theorem encrypt_decrypt_roundtrip:
  assumes "decodeAes256KeyBytes keyMaterial = Inr key"
    and "isWellFormed plaintext"
    and "\<not> startsWith plaintext [0xFEFF]"
  shows "\<exists>blob rng'. encrypt rng plaintext keyMaterial = Inr (blob, rng') \<and>
           decrypt blob keyMaterial = Inr plaintext"
  using assms
  by (simp add: encrypt_decoded decrypt_encrypted textDecode_textEncode)

text \<open>
  The token of the tests, the empty string, and a string with a surrogate pair and
  characters of two and three bytes.
\<close>

lemma sample_plaintexts:
  "isWellFormed (js ''test-token-plaintext'')" "\<not> startsWith (js ''test-token-plaintext'') [0xFEFF]"
  "isWellFormed []" "\<not> startsWith [] [0xFEFF]"
  "isWellFormed [0xD83D, 0xDE00, 0xE9, 0x4E2D]" "\<not> startsWith [0xD83D, 0xDE00, 0xE9, 0x4E2D] [0xFEFF]"
  by (simp_all add: js_def startsWith_def isLeadSurrogate_def isTrailSurrogate_def)

theorem encrypt_decrypt_roundtrip_witness:
  "decodeAes256KeyBytes sampleKeyHex = Inr sampleKeyBytes \<and>
   isWellFormed (js ''test-token-plaintext'') \<and>
   \<not> startsWith (js ''test-token-plaintext'') [0xFEFF] \<and>
   (\<exists>blob rng'. encrypt countingSource (js ''test-token-plaintext'') sampleKeyHex = Inr (blob, rng') \<and>
      decrypt blob sampleKeyHex = Inr (js ''test-token-plaintext'')) \<and>
   (\<exists>blob rng'. encrypt countingSource [] sampleKeyHex = Inr (blob, rng') \<and>
      decrypt blob sampleKeyHex = Inr []) \<and>
   (\<exists>blob rng'. encrypt countingSource [0xD83D, 0xDE00, 0xE9, 0x4E2D] sampleKeyHex = Inr (blob, rng') \<and>
      decrypt blob sampleKeyHex = Inr [0xD83D, 0xDE00, 0xE9, 0x4E2D])"
  using encrypt_decrypt_roundtrip [OF decode_sampleKeyHex sample_plaintexts(1,2), of countingSource]
    encrypt_decrypt_roundtrip [OF decode_sampleKeyHex sample_plaintexts(3,4), of countingSource]
    encrypt_decrypt_roundtrip [OF decode_sampleKeyHex sample_plaintexts(5,6), of countingSource]
    decode_sampleKeyHex sample_plaintexts
  by blast

text \<open>
  A plaintext that begins with U+FEFF comes back without it: the decoder of the
  platform takes the first three bytes for a byte order mark.
\<close>

theorem encrypt_decrypt_bom_counterexample:
  "decodeAes256KeyBytes sampleKeyHex = Inr sampleKeyBytes \<and>
   decrypt (fst (projr (encrypt countingSource [0xFEFF, 0x41] sampleKeyHex))) sampleKeyHex
     = Inr [0x41] \<and>
   decrypt (fst (projr (encrypt countingSource [0xFEFF, 0x41] sampleKeyHex))) sampleKeyHex
     \<noteq> Inr [0xFEFF, 0x41]"
proof -
  have "textDecode (textEncode [0xFEFF, 0x41]) = [0x41]"
    by (simp add: textDecode_def textEncode_def utf8EncodeScalar_def isLeadSurrogate_def
        isTrailSurrogate_def inRange_def fromCodePoint_def)
  then have "decrypt (fst (projr (encrypt countingSource [0xFEFF, 0x41] sampleKeyHex))) sampleKeyHex
      = Inr [0x41]"
    by (simp add: encrypt_decoded [OF decode_sampleKeyHex] decrypt_encrypted [OF decode_sampleKeyHex])
  then show ?thesis
    using decode_sampleKeyHex by simp
qed
















text \<open>
  Claim C8. Under a key material that decodes to a key, \<open>encrypt\<close> takes the next 12
  bytes of the random source as the nonce of the call and leaves the source advanced
  past them; the blob it returns is that nonce followed by the AES-256-GCM ciphertext
  with its tag, 12 bytes more than the ciphertext with the tag.
\<close>

theorem encrypt_layout:
  assumes "decodeAes256KeyBytes keyMaterial = Inr key"
  shows "\<exists>blob rng'. encrypt rng plaintext keyMaterial = Inr (blob, rng') \<and>
           take 12 blob = map rng [0..<12] \<and>
           drop 12 blob = gcmEncrypt key (map rng [0..<12]) (textEncode plaintext) \<and>
           length blob = 12 + length (gcmEncrypt key (map rng [0..<12]) (textEncode plaintext)) \<and>
           length (gcmEncrypt key (map rng [0..<12]) (textEncode plaintext))
             = length (textEncode plaintext) + 16 \<and>
           length key = 32 \<and>
           rng' = (\<lambda>i. rng (12 + i))"
  using assms
  by (simp add: encrypt_decoded length_gcmEncrypt decodeAes256KeyBytes_length)

lemma sample_nonce: "map countingSource [0..<12] = [7, 8, 9, 10, 11, 12, 13, 14, 15, 16, 17, 18]"
proof -
  have "[0..<12] = [0, 1, 2, 3, 4, 5, 6, 7, 8, 9, 10, 11 :: nat]"
    by code_simp
  then show ?thesis
    by (simp add: countingSource_def)
qed

lemma sample_encoding: "length (textEncode (js ''test-token-plaintext'')) = 20"
  by (simp add: textEncode_def js_def utf8EncodeScalar_def isLeadSurrogate_def isTrailSurrogate_def)

theorem encrypt_layout_witness:
  "decodeAes256KeyBytes sampleKeyHex = Inr sampleKeyBytes \<and>
   (\<exists>blob rng'. encrypt countingSource (js ''test-token-plaintext'') sampleKeyHex = Inr (blob, rng') \<and>
      take 12 blob = [7, 8, 9, 10, 11, 12, 13, 14, 15, 16, 17, 18] \<and>
      drop 12 blob =
        gcmEncrypt sampleKeyBytes [7, 8, 9, 10, 11, 12, 13, 14, 15, 16, 17, 18]
          (textEncode (js ''test-token-plaintext'')) \<and>
      length blob = 48 \<and> rng' 0 = 19)"
  using encrypt_layout [OF decode_sampleKeyHex, of countingSource "js ''test-token-plaintext''"]
    decode_sampleKeyHex
  by (auto simp: sample_nonce sample_encoding countingSource_def)

end
